theory Spec2Isabelle
  imports Main "HOL-Library.AList"
begin

section \<open>The persisted data model (database/postgres\_models.py)\<close>

text \<open>
  The three tables of \<^verbatim>\<open>_initialize_schema\<close> are lists of rows, in storage order. A
  \<^verbatim>\<open>TIMESTAMP\<close> is an integer number of microseconds; a nullable column is an
  \<open>option\<close>. The \<^verbatim>\<open>status\<close> columns are \<^verbatim>\<open>TEXT\<close> and the
  managers accept any string, so a status is a \<open>string\<close>.
\<close>

type_synonym timestamp = int

text \<open>A value of the \<^verbatim>\<open>metadata\<close> JSON object: a JSON string, or any other JSON value.\<close>

datatype jval = JStr string | JOther

record job =
  job_id :: string
  client_name :: string
  client_email :: string
  status :: string
  progress_percentage :: "int option"
  current_step :: "string option"
  total_steps :: int
  completed_steps :: int
  error_message :: "string option"
  created_at :: timestamp
  updated_at :: timestamp
  started_at :: "timestamp option"
  completed_at :: "timestamp option"
  data_folder :: "string option"
  metadata :: "(string \<times> jval) list"

text \<open>
  A row of \<^verbatim>\<open>job_competitors\<close>. Columns whose names the \<^verbatim>\<open>jobs\<close> table also
  uses carry the prefix \<open>jc_\<close>.
\<close>

record competitor =
  jc_id :: nat
  jc_job_id :: string
  competitor_url :: string
  competitor_name :: string
  jc_status :: string
  jc_inventory_path :: "string option"
  jc_tools_path :: "string option"
  jc_error_message :: "string option"
  scraped_at :: "timestamp option"

text \<open>A row of \<^verbatim>\<open>scraped_sites\<close> (the cache); clashing column names carry \<open>ss_\<close>.\<close>

record site =
  ss_id :: nat
  url :: string
  dealership_name :: string
  last_scraped_at :: timestamp
  ss_inventory_path :: "string option"
  ss_tools_path :: "string option"
  vehicle_count :: int
  tools_count :: int
  ss_status :: string
  ss_error_message :: "string option"
  cache_valid_until :: timestamp

text \<open>
  The database: the three tables and the two \<^verbatim>\<open>SERIAL\<close> sequences (the last value
  each has handed out).
\<close>

record store =
  jobs :: "job list"
  job_competitors :: "competitor list"
  scraped_sites :: "site list"
  competitor_seq :: nat
  site_seq :: nat

text \<open>\<^verbatim>\<open>timedelta(days=d)\<close> in microseconds.\<close>

definition timedelta_days :: "int \<Rightarrow> int" where
  "timedelta_days d = d * 86400000000"

text \<open>Python's truth value of an \<^verbatim>\<open>Optional[str]\<close>: \<^verbatim>\<open>None\<close> and the empty string are false.\<close>

fun truthy :: "string option \<Rightarrow> bool" where
  "truthy None = False"
| "truthy (Some s) = (s \<noteq> [])"

subsection \<open>JobManager\<close>

text \<open>
  \<^verbatim>\<open>create_job\<close>: one \<^verbatim>\<open>jobs\<close> row with \<^verbatim>\<open>total_steps = 2 + len(competitor_urls) + 2\<close>
  and the column defaults (\<^verbatim>\<open>progress_percentage\<close> 0, \<^verbatim>\<open>completed_steps\<close> 0, both
  timestamps \<^verbatim>\<open>CURRENT_TIMESTAMP\<close>), then one \<^verbatim>\<open>job_competitors\<close> row per competitor, in
  list order, with status \<^verbatim>\<open>pending\<close>. The primary key refuses a \<^verbatim>\<open>job_id\<close> that is
  already there: the transaction is rolled back and the call raises (\<open>None\<close>).
\<close>

fun insert_competitors :: "string \<Rightarrow> (string \<times> string) list \<Rightarrow> store \<Rightarrow> store" where
  "insert_competitors jid [] db = db"
| "insert_competitors jid ((u, n) # cs) db =
     insert_competitors jid cs
       (db\<lparr>job_competitors := job_competitors db @
             [\<lparr>jc_id = competitor_seq db + 1, jc_job_id = jid, competitor_url = u,
               competitor_name = n, jc_status = ''pending'', jc_inventory_path = None,
               jc_tools_path = None, jc_error_message = None, scraped_at = None\<rparr>],
           competitor_seq := competitor_seq db + 1\<rparr>)"

definition create_job ::
  "timestamp \<Rightarrow> string \<Rightarrow> string \<Rightarrow> string \<Rightarrow> (string \<times> string) list \<Rightarrow> string option \<Rightarrow>
   (string \<times> jval) list \<Rightarrow> store \<Rightarrow> store option" where
  "create_job now jid cname cemail competitor_urls folder meta db =
     (if jid \<in> set (map job_id (jobs db)) then None
      else Some (insert_competitors jid competitor_urls
        (db\<lparr>jobs := jobs db @
              [\<lparr>job_id = jid, client_name = cname, client_email = cemail, status = ''queued'',
                progress_percentage = Some 0, current_step = None,
                total_steps = 2 + int (length competitor_urls) + 2, completed_steps = 0,
                error_message = None, created_at = now, updated_at = now, started_at = None,
                completed_at = None, data_folder = folder, metadata = meta\<rparr>]\<rparr>)))"

text \<open>\<^verbatim>\<open>SELECT * FROM jobs WHERE job_id = %s\<close> followed by \<^verbatim>\<open>fetchone\<close>.\<close>

definition lookup_job :: "store \<Rightarrow> string \<Rightarrow> job option" where
  "lookup_job db jid = find (\<lambda>j. job_id j = jid) (jobs db)"

text \<open>\<^verbatim>\<open>SELECT * FROM job_competitors WHERE job_id = %s\<close>, all rows.\<close>

definition job_competitor_rows :: "store \<Rightarrow> string \<Rightarrow> competitor list" where
  "job_competitor_rows db jid = filter (\<lambda>c. jc_job_id c = jid) (job_competitors db)"

text \<open>
  \<^verbatim>\<open>update_status\<close> builds its \<^verbatim>\<open>SET\<close> list from the arguments: \<^verbatim>\<open>status\<close> and
  \<^verbatim>\<open>updated_at\<close> always; \<^verbatim>\<open>current_step\<close> and \<^verbatim>\<open>error_message\<close> when the argument is
  truthy; \<^verbatim>\<open>started_at = COALESCE(started_at, CURRENT_TIMESTAMP)\<close> when
  \<^verbatim>\<open>status == 'processing' and current_step\<close>; \<^verbatim>\<open>completed_at\<close> when the status is
  \<^verbatim>\<open>completed\<close> or \<^verbatim>\<open>failed\<close>. \<open>now\<close> is the statement's \<^verbatim>\<open>CURRENT_TIMESTAMP\<close>.
\<close>

definition update_status_row ::
  "timestamp \<Rightarrow> string \<Rightarrow> string option \<Rightarrow> string option \<Rightarrow> job \<Rightarrow> job" where
  "update_status_row now st step err j =
     j\<lparr>status := st,
       updated_at := now,
       current_step := (if truthy step then step else current_step j),
       error_message := (if truthy err then err else error_message j),
       started_at := (if st = ''processing'' \<and> truthy step
                      then (case started_at j of None \<Rightarrow> Some now | Some t \<Rightarrow> Some t)
                      else started_at j),
       completed_at := (if st = ''completed'' \<or> st = ''failed'' then Some now
                        else completed_at j)\<rparr>"

definition update_status ::
  "timestamp \<Rightarrow> string \<Rightarrow> string \<Rightarrow> string option \<Rightarrow> string option \<Rightarrow> store \<Rightarrow> store" where
  "update_status now jid st step err db =
     db\<lparr>jobs := map (\<lambda>j. if job_id j = jid then update_status_row now st step err j else j)
                     (jobs db)\<rparr>"

text \<open>
  PostgreSQL's assignment of a \<^verbatim>\<open>numeric\<close> to an \<^verbatim>\<open>INTEGER\<close> column rounds to the
  nearest integer, ties away from zero. \<open>pg_round_div a b\<close> is that rounding of the quotient
  \<open>a / b\<close> for \<open>b \<noteq> 0\<close>. (The quotient of two 32-bit integers is either a tie or further than
  one part in ten thousand million from one, so the 16 digits the \<^verbatim>\<open>numeric\<close>
  division keeps decide the rounding exactly.)
\<close>

definition pg_round_div :: "int \<Rightarrow> int \<Rightarrow> int" where
  "pg_round_div a b =
     (if (0 \<le> a) = (0 < b) \<or> a = 0
      then (2 * \<bar>a\<bar> + \<bar>b\<bar>) div (2 * \<bar>b\<bar>)
      else - ((2 * \<bar>a\<bar> + \<bar>b\<bar>) div (2 * \<bar>b\<bar>)))"

text \<open>\<^verbatim>\<open>(c * 100.0) / NULLIF(t, 0)\<close>, stored in the \<^verbatim>\<open>INTEGER\<close> column.\<close>

definition percentage :: "int \<Rightarrow> int \<Rightarrow> int option" where
  "percentage c t = (if t = 0 then None else Some (pg_round_div (c * 100) t))"

text \<open>
  \<^verbatim>\<open>update_progress\<close>:
  \<^verbatim>\<open>UPDATE jobs SET completed_steps = %s,
       progress_percentage = (completed_steps * 100.0) / NULLIF(total_steps, 0),
       updated_at = CURRENT_TIMESTAMP WHERE job_id = %s\<close>.
  In an SQL \<^verbatim>\<open>UPDATE\<close> every expression on the right of \<^verbatim>\<open>SET\<close> reads the row as it
  was before the statement, so \<^verbatim>\<open>completed_steps\<close> in the second assignment is the value
  the row held, not the parameter.
\<close>

definition update_progress_row :: "timestamp \<Rightarrow> int \<Rightarrow> job \<Rightarrow> job" where
  "update_progress_row now n j =
     j\<lparr>completed_steps := n,
       progress_percentage := percentage (completed_steps j) (total_steps j),
       updated_at := now\<rparr>"

definition update_progress :: "timestamp \<Rightarrow> string \<Rightarrow> int \<Rightarrow> store \<Rightarrow> store" where
  "update_progress now jid n db =
     db\<lparr>jobs := map (\<lambda>j. if job_id j = jid then update_progress_row now n j else j) (jobs db)\<rparr>"

text \<open>
  \<^verbatim>\<open>update_competitor_status\<close>: the paths keep their value when the argument is
  \<^verbatim>\<open>None\<close> (\<^verbatim>\<open>COALESCE\<close>), \<^verbatim>\<open>error_message\<close> is always overwritten, and
  \<^verbatim>\<open>scraped_at\<close> is set when the status is \<^verbatim>\<open>completed\<close>. The \<^verbatim>\<open>WHERE\<close> clause
  selects by job and URL.
\<close>

definition update_competitor_row ::
  "timestamp \<Rightarrow> string \<Rightarrow> string option \<Rightarrow> string option \<Rightarrow> string option \<Rightarrow>
   competitor \<Rightarrow> competitor" where
  "update_competitor_row now st ipath tpath err c =
     c\<lparr>jc_status := st,
       jc_inventory_path := (case ipath of Some p \<Rightarrow> Some p | None \<Rightarrow> jc_inventory_path c),
       jc_tools_path := (case tpath of Some p \<Rightarrow> Some p | None \<Rightarrow> jc_tools_path c),
       jc_error_message := err,
       scraped_at := (if st = ''completed'' then Some now else scraped_at c)\<rparr>"

definition update_competitor_status ::
  "timestamp \<Rightarrow> string \<Rightarrow> string \<Rightarrow> string \<Rightarrow> string option \<Rightarrow> string option \<Rightarrow>
   string option \<Rightarrow> store \<Rightarrow> store" where
  "update_competitor_status now jid u st ipath tpath err db =
     db\<lparr>job_competitors :=
          map (\<lambda>c. if jc_job_id c = jid \<and> competitor_url c = u
                    then update_competitor_row now st ipath tpath err c else c)
              (job_competitors db)\<rparr>"

subsection \<open>CacheManager\<close>

text \<open>
  \<^verbatim>\<open>get_cached_scrape\<close>:
  \<^verbatim>\<open>SELECT * FROM scraped_sites WHERE url = %s AND cache_valid_until > CURRENT_TIMESTAMP
       AND status = 'success'\<close>, then \<^verbatim>\<open>fetchone\<close>. Its only inputs are the table, the URL
  and the statement's clock.
\<close>

definition get_cached_scrape :: "timestamp \<Rightarrow> string \<Rightarrow> store \<Rightarrow> site option" where
  "get_cached_scrape now u db =
     find (\<lambda>r. url r = u \<and> now < cache_valid_until r \<and> ss_status r = ''success'')
          (scraped_sites db)"

text \<open>
  \<^verbatim>\<open>save_scrape\<close>: \<^verbatim>\<open>cache_valid_until = datetime.now() + timedelta(days=cache_ttl_days)\<close>
  is computed by the caller's clock \<open>py_now\<close>; \<^verbatim>\<open>last_scraped_at\<close> is the statement's
  \<^verbatim>\<open>CURRENT_TIMESTAMP\<close> \<open>db_now\<close>. \<^verbatim>\<open>INSERT ... ON CONFLICT (url) DO UPDATE\<close>: a row
  with that URL has every column but \<^verbatim>\<open>id\<close> overwritten with the proposed row's
  (\<^verbatim>\<open>url\<close> is equal already); otherwise the proposed row is appended. The \<^verbatim>\<open>SERIAL\<close> default is evaluated for the proposed row either way.
\<close>

record save_call =
  sc_py_now :: timestamp
  sc_db_now :: timestamp
  sc_url :: string
  sc_dealership_name :: string
  sc_inventory_path :: string
  sc_tools_path :: string
  sc_vehicle_count :: int
  sc_tools_count :: int
  sc_status :: string
  sc_error_message :: "string option"

text \<open>The row the \<^verbatim>\<open>INSERT\<close> proposes (\<^verbatim>\<open>EXCLUDED\<close>), with \<^verbatim>\<open>id\<close> \<open>i\<close>.\<close>

definition excluded_row :: "int \<Rightarrow> save_call \<Rightarrow> nat \<Rightarrow> site" where
  "excluded_row ttl_days c i =
     \<lparr>ss_id = i, url = sc_url c, dealership_name = sc_dealership_name c,
      last_scraped_at = sc_db_now c, ss_inventory_path = Some (sc_inventory_path c),
      ss_tools_path = Some (sc_tools_path c), vehicle_count = sc_vehicle_count c,
      tools_count = sc_tools_count c, ss_status = sc_status c,
      ss_error_message = sc_error_message c,
      cache_valid_until = sc_py_now c + timedelta_days ttl_days\<rparr>"

definition save_scrape :: "int \<Rightarrow> save_call \<Rightarrow> store \<Rightarrow> store" where
  "save_scrape ttl_days c db =
     (if sc_url c \<in> set (map url (scraped_sites db))
      then db\<lparr>scraped_sites :=
                map (\<lambda>r. if url r = sc_url c then excluded_row ttl_days c (ss_id r) else r)
                    (scraped_sites db),
              site_seq := site_seq db + 1\<rparr>
      else db\<lparr>scraped_sites := scraped_sites db @ [excluded_row ttl_days c (site_seq db + 1)],
              site_seq := site_seq db + 1\<rparr>)"

text \<open>A sequence of \<^verbatim>\<open>save_scrape\<close> calls of one CacheManager, first call first.\<close>

fun save_all :: "int \<Rightarrow> save_call list \<Rightarrow> store \<Rightarrow> store" where
  "save_all ttl_days [] db = db"
| "save_all ttl_days (c # cs) db = save_all ttl_days cs (save_scrape ttl_days c db)"

text \<open>
  \<^verbatim>\<open>cleanup_expired\<close>: \<^verbatim>\<open>DELETE FROM scraped_sites WHERE cache_valid_until < CURRENT_TIMESTAMP\<close>;
  returns \<^verbatim>\<open>cursor.rowcount\<close>.
\<close>

definition cleanup_expired :: "timestamp \<Rightarrow> store \<Rightarrow> nat \<times> store" where
  "cleanup_expired now db =
     (length (filter (\<lambda>r. cache_valid_until r < now) (scraped_sites db)),
      db\<lparr>scraped_sites := filter (\<lambda>r. \<not> cache_valid_until r < now) (scraped_sites db)\<rparr>)"

subsection \<open>CleanupManager\<close>

text \<open>
  \<^verbatim>\<open>cleanup_old_jobs\<close>: the cutoff is \<^verbatim>\<open>datetime.now() - timedelta(days=retention_days)\<close>.
  It selects \<^verbatim>\<open>job_id, data_folder\<close> of the terminal jobs created before the cutoff,
  returns \<^verbatim>\<open>(0, [])\<close> when there are none, and otherwise deletes them
  (\<^verbatim>\<open>ON DELETE CASCADE\<close> removes their \<^verbatim>\<open>job_competitors\<close> rows). The method has no
  dry-run parameter.
\<close>

definition old_job :: "timestamp \<Rightarrow> job \<Rightarrow> bool" where
  "old_job cutoff j = (created_at j < cutoff \<and> (status j = ''completed'' \<or> status j = ''failed''))"

definition cleanup_old_jobs ::
  "timestamp \<Rightarrow> int \<Rightarrow> store \<Rightarrow> (nat \<times> (string \<times> string option) list) \<times> store" where
  "cleanup_old_jobs py_now retention_days db =
     (let cutoff_date = py_now - timedelta_days retention_days;
          old_jobs = map (\<lambda>j. (job_id j, data_folder j)) (filter (old_job cutoff_date) (jobs db))
      in if old_jobs = [] then ((0, []), db)
         else ((length old_jobs, old_jobs),
               db\<lparr>jobs := filter (\<lambda>j. \<not> old_job cutoff_date j) (jobs db),
                  job_competitors :=
                    filter (\<lambda>c. jc_job_id c \<notin> set (map fst old_jobs)) (job_competitors db)\<rparr>))"

section \<open>The cleanup script (scripts/cleanup\_old\_data\_postgres.py)\<close>

text \<open>
  The disk is the list of the paths that exist. \<^verbatim>\<open>shutil.rmtree(d)\<close> removes \<open>d\<close> and
  every path below it; \<open>rm_fails d\<close> says that it raises instead (the handler prints and
  goes on).
\<close>

definition under_folder :: "string \<Rightarrow> string \<Rightarrow> bool" where
  "under_folder d p = (p = d \<or> take (length d + 1) p = d @ ''/'')"

definition rmtree :: "string \<Rightarrow> string list \<Rightarrow> string list" where
  "rmtree d fs = filter (\<lambda>p. \<not> under_folder d p) fs"

text \<open>
  \<^verbatim>\<open>cleanup_data_folders\<close>: for each job of \<^verbatim>\<open>old_jobs\<close>, skip a missing or empty
  \<^verbatim>\<open>data_folder\<close> and a folder that is not on disk; in a dry run only print; otherwise
  \<^verbatim>\<open>rmtree\<close> and count. The computation of the folder's size only feeds the printed
  line. The result is \<^verbatim>\<open>deleted_count\<close> and the disk.
\<close>

fun cleanup_data_folders ::
  "(string \<Rightarrow> bool) \<Rightarrow> (string \<times> string option) list \<Rightarrow> bool \<Rightarrow> nat \<Rightarrow> string list \<Rightarrow>
   nat \<times> string list" where
  "cleanup_data_folders rm_fails [] dry_run deleted_count fs = (deleted_count, fs)"
| "cleanup_data_folders rm_fails ((jid, None) # rest) dry_run deleted_count fs =
     cleanup_data_folders rm_fails rest dry_run deleted_count fs"
| "cleanup_data_folders rm_fails ((jid, Some d) # rest) dry_run deleted_count fs =
     (if d = [] then cleanup_data_folders rm_fails rest dry_run deleted_count fs
      else if d \<notin> set fs then cleanup_data_folders rm_fails rest dry_run deleted_count fs
      else if dry_run then cleanup_data_folders rm_fails rest dry_run deleted_count fs
      else if rm_fails d then cleanup_data_folders rm_fails rest dry_run deleted_count fs
      else cleanup_data_folders rm_fails rest dry_run (deleted_count + 1) (rmtree d fs))"

text \<open>
  What a run prints: the jobs it names in its \<^verbatim>\<open>Would delete N job(s)\<close> or
  \<^verbatim>\<open>Deleted N job(s)\<close> line (the list \<^verbatim>\<open>cleanup_old_jobs\<close> returned), the number of
  folders removed and the number of expired cache entries.
\<close>

record cleanup_report =
  reported_jobs :: "(string \<times> string option) list"
  folders_deleted :: nat
  cache_entries :: nat

text \<open>
  \<^verbatim>\<open>run_cleanup\<close>. \<open>py_now\<close> is \<^verbatim>\<open>datetime.now()\<close> inside \<^verbatim>\<open>cleanup_old_jobs\<close>,
  \<open>db_now\<close> the \<^verbatim>\<open>CURRENT_TIMESTAMP\<close> of the cache statement. The jobs branch calls
  \<^verbatim>\<open>cleanup_mgr.cleanup_old_jobs()\<close> before it looks at \<^verbatim>\<open>dry_run\<close>; the cache branch
  counts with a \<^verbatim>\<open>SELECT\<close> in a dry run and calls \<^verbatim>\<open>cleanup_expired\<close> otherwise.
  Store connectivity errors (the \<^verbatim>\<open>except\<close> branch that returns \<^verbatim>\<open>False\<close>) are outside
  the model.
\<close>

definition run_cleanup ::
  "(string \<Rightarrow> bool) \<Rightarrow> timestamp \<Rightarrow> timestamp \<Rightarrow> int \<Rightarrow> bool \<Rightarrow> bool \<Rightarrow> bool \<Rightarrow>
   store \<times> string list \<Rightarrow> cleanup_report \<times> store \<times> string list" where
  "run_cleanup rm_fails py_now db_now retention_days dry_run cache_only jobs_only w =
     (let db0 = fst w; fs0 = snd w;
          jobs_result = (if \<not> cache_only then cleanup_old_jobs py_now retention_days db0
                         else ((0, []), db0));
          count = fst (fst jobs_result);
          old_jobs = snd (fst jobs_result);
          db1 = snd jobs_result;
          folders = (if \<not> cache_only \<and> count \<noteq> 0 \<and> old_jobs \<noteq> []
                     then cleanup_data_folders rm_fails old_jobs dry_run 0 fs0
                     else (0, fs0));
          cache = (if jobs_only then (0, db1)
                   else if dry_run
                     then (length (filter (\<lambda>r. cache_valid_until r < db_now) (scraped_sites db1)),
                           db1)
                   else cleanup_expired db_now db1)
      in (\<lparr>reported_jobs = old_jobs, folders_deleted = fst folders, cache_entries = fst cache\<rparr>,
          snd cache, snd folders))"

section \<open>The orchestrator (orchestrator/job\_processor\_postgres.py)\<close>

subsection \<open>Collaborators and configuration\<close>

text \<open>
  \<^verbatim>\<open>str(n)\<close> for the integers the error messages print.
\<close>

fun str_nat :: "nat \<Rightarrow> string" where
  "str_nat n = (if n < 10 then [''0123456789'' ! n]
                else str_nat (n div 10) @ [''0123456789'' ! (n mod 10)])"

declare str_nat.simps [simp del]

definition str_int :: "int \<Rightarrow> string" where
  "str_int i = (if i < 0 then ''-'' @ str_nat (nat (- i)) else str_nat (nat i))"

text \<open>
  Everything \<^verbatim>\<open>process_job\<close> does not decide itself is a field of the environment: the
  clocks, the disk and the three collaborators. An exception is the text \<^verbatim>\<open>str(e)\<close> that
  the handler prints into the job's error message.
  \<^item> \<open>db_clock n\<close> and \<open>py_clock n\<close>: \<^verbatim>\<open>CURRENT_TIMESTAMP\<close> and \<^verbatim>\<open>datetime.now()\<close> at the
    \<open>n\<close>-th store operation of the run.
  \<^item> \<open>makedirs_error folder\<close>: the exception of \<^verbatim>\<open>os.makedirs\<close>, if any.
  \<^item> \<open>key_error_text keys\<close>: \<^verbatim>\<open>str\<close> of the \<^verbatim>\<open>KeyError\<close> raised when
    \<^verbatim>\<open>inventory_json\<close> is not a key; \<open>tools_key_error_text\<close>: \<^verbatim>\<open>str\<close> of the
    \<^verbatim>\<open>KeyError\<close> of \<^verbatim>\<open>metadata['tools_json']\<close>.
  \<^item> \<open>write_inventory s\<close>, \<open>write_tools s\<close>: the exception of opening the client file,
    writing \<open>s\<close> and \<^verbatim>\<open>json.loads(s)\<close>, if any; \<open>write_type_error\<close>: the exception of
    \<^verbatim>\<open>f.write\<close> on a value that is not a string.
  \<^item> \<open>path_exists i p\<close>: \<^verbatim>\<open>os.path.exists(p)\<close> when competitor number \<open>i\<close> is looked up
    in the cache; \<open>exists_type_error\<close>: the \<^verbatim>\<open>TypeError\<close> of \<^verbatim>\<open>os.path.exists(None)\<close>.
  \<^item> \<open>run_scraper i a\<close>: attempt \<open>a\<close> of \<^verbatim>\<open>_run_scraper\<close> for competitor number \<open>i\<close>:
    an exception, or \<^verbatim>\<open>(inv_dest, tools_dest, veh_count, tools_count)\<close>.
  \<^item> \<open>run_analysis files\<close>: the exception of \<^verbatim>\<open>_run_analysis\<close>, if any, given the
    successful competitors' paths.
  \<^item> \<open>send_email a\<close>: the exception of attempt \<open>a\<close> of \<^verbatim>\<open>_send_email\<close>, if any.
\<close>

record env =
  db_clock :: "nat \<Rightarrow> timestamp"
  py_clock :: "nat \<Rightarrow> timestamp"
  makedirs_error :: "string \<Rightarrow> string option"
  key_error_text :: "string list \<Rightarrow> string"
  tools_key_error_text :: string
  write_inventory :: "string \<Rightarrow> string option"
  write_tools :: "string \<Rightarrow> string option"
  write_type_error :: string
  path_exists :: "nat \<Rightarrow> string \<Rightarrow> bool"
  exists_type_error :: string
  run_scraper :: "nat \<Rightarrow> nat \<Rightarrow> string + (string \<times> string \<times> int \<times> int)"
  run_analysis :: "(string \<times> string) list \<Rightarrow> string option"
  send_email :: "nat \<Rightarrow> string option"

text \<open>The constructor arguments of \<^verbatim>\<open>JobProcessorPostgres\<close>.\<close>

record config =
  cache_ttl_days :: int
  scraper_max_retries :: int
  email_max_retries :: int

text \<open>
  What an observer of the run can see, in order: the job's row after each
  \<^verbatim>\<open>update_status\<close> and \<^verbatim>\<open>update_progress\<close>, and each call of a collaborator.
\<close>

datatype event =
  Observed "job option"
| ScraperRun nat nat
| AnalysisRun
| EmailSend nat

text \<open>
  The state of a run: the database, the number of store operations issued so far, and the
  events so far.
\<close>

record world =
  db :: store
  tick :: nat
  trace :: "event list"

text \<open>The calls \<^verbatim>\<open>process_job\<close> makes on its managers, each one store operation.\<close>

definition job_update_status ::
  "env \<Rightarrow> string \<Rightarrow> string \<Rightarrow> string option \<Rightarrow> string option \<Rightarrow> world \<Rightarrow> world" where
  "job_update_status e jid st step err w =
     (let d = update_status (db_clock e (tick w)) jid st step err (db w)
      in w\<lparr>db := d, tick := tick w + 1, trace := trace w @ [Observed (lookup_job d jid)]\<rparr>)"

definition job_update_progress :: "env \<Rightarrow> string \<Rightarrow> int \<Rightarrow> world \<Rightarrow> world" where
  "job_update_progress e jid n w =
     (let d = update_progress (db_clock e (tick w)) jid n (db w)
      in w\<lparr>db := d, tick := tick w + 1, trace := trace w @ [Observed (lookup_job d jid)]\<rparr>)"

definition job_update_competitor ::
  "env \<Rightarrow> string \<Rightarrow> string \<Rightarrow> string \<Rightarrow> string option \<Rightarrow> string option \<Rightarrow> string option \<Rightarrow>
   world \<Rightarrow> world" where
  "job_update_competitor e jid u st ipath tpath err w =
     w\<lparr>db := update_competitor_status (db_clock e (tick w)) jid u st ipath tpath err (db w),
       tick := tick w + 1\<rparr>"

definition cache_save ::
  "env \<Rightarrow> config \<Rightarrow> string \<Rightarrow> string \<Rightarrow> string \<Rightarrow> string \<Rightarrow> int \<Rightarrow> int \<Rightarrow> world \<Rightarrow> world" where
  "cache_save e cfg u name ipath tpath veh tools w =
     w\<lparr>db := save_scrape (cache_ttl_days cfg)
              \<lparr>sc_py_now = py_clock e (tick w), sc_db_now = db_clock e (tick w), sc_url = u,
               sc_dealership_name = name, sc_inventory_path = ipath, sc_tools_path = tpath,
               sc_vehicle_count = veh, sc_tools_count = tools, sc_status = ''success'',
               sc_error_message = None\<rparr> (db w),
       tick := tick w + 1\<rparr>"

subsection \<open>Phase 1: the client's data\<close>

text \<open>
  The legacy fallback: when \<^verbatim>\<open>inventory_json\<close> is not a key and \<^verbatim>\<open>csv1_json\<close> is,
  \<^verbatim>\<open>inventory_json\<close> and \<^verbatim>\<open>tools_json\<close> are set from \<^verbatim>\<open>csv1_json\<close> and
  \<^verbatim>\<open>csv2_json\<close> (default \<^verbatim>\<open>'[]'\<close>).
\<close>

definition metadata_get :: "(string \<times> jval) list \<Rightarrow> string \<Rightarrow> jval \<Rightarrow> jval" where
  "metadata_get meta k dflt = (case map_of meta k of None \<Rightarrow> dflt | Some v \<Rightarrow> v)"

definition convert_metadata :: "(string \<times> jval) list \<Rightarrow> (string \<times> jval) list" where
  "convert_metadata meta =
     (if ''inventory_json'' \<notin> set (map fst meta) \<and> ''csv1_json'' \<in> set (map fst meta)
      then AList.update ''tools_json'' (metadata_get meta ''csv2_json'' (JStr ''[]''))
             (AList.update ''inventory_json'' (metadata_get meta ''csv1_json'' (JStr ''[]'')) meta)
      else meta)"

text \<open>\<^verbatim>\<open>if not data_folder\<close>: the folder \<^verbatim>\<open>data/jobs/<job_id>\<close> is created.\<close>

definition prepare_data_folder :: "env \<Rightarrow> string \<Rightarrow> string option \<Rightarrow> string option" where
  "prepare_data_folder e jid folder =
     (if truthy folder then None else makedirs_error e (''data/jobs/'' @ jid))"

text \<open>The two \<^verbatim>\<open>try\<close> blocks of step 1: the exception each one catches, if any.\<close>

definition inventory_error :: "env \<Rightarrow> (string \<times> jval) list \<Rightarrow> string option" where
  "inventory_error e meta =
     (case map_of meta ''inventory_json'' of
        None \<Rightarrow> Some (key_error_text e (map fst meta))
      | Some (JStr s) \<Rightarrow> write_inventory e s
      | Some JOther \<Rightarrow> Some (write_type_error e))"

definition tools_error :: "env \<Rightarrow> (string \<times> jval) list \<Rightarrow> string option" where
  "tools_error e meta =
     (case map_of meta ''tools_json'' of
        None \<Rightarrow> Some (tools_key_error_text e)
      | Some (JStr s) \<Rightarrow> write_tools e s
      | Some JOther \<Rightarrow> Some (write_type_error e))"

text \<open>Every failure path: \<^verbatim>\<open>update_status(job_id, 'failed', error_message=msg); return False\<close>.\<close>

definition fail_job :: "env \<Rightarrow> string \<Rightarrow> string \<Rightarrow> world \<Rightarrow> bool \<times> world" where
  "fail_job e jid msg w = (False, job_update_status e jid ''failed'' None (Some msg) w)"

subsection \<open>Phase 2: the competitors\<close>

text \<open>
  The cache row found for a competitor is used when both files it names exist;
  \<^verbatim>\<open>os.path.exists(a) and os.path.exists(b)\<close> evaluates \<open>b\<close> only when \<open>a\<close> exists, and
  raises \<^verbatim>\<open>TypeError\<close> on \<^verbatim>\<open>None\<close>.
\<close>

datatype cache_check = CacheRaise string | CacheHit string string | CacheMiss

definition cached_files_exist :: "env \<Rightarrow> nat \<Rightarrow> site \<Rightarrow> cache_check" where
  "cached_files_exist e i r =
     (case ss_inventory_path r of
        None \<Rightarrow> CacheRaise (exists_type_error e)
      | Some p \<Rightarrow>
          if \<not> path_exists e i p then CacheMiss
          else (case ss_tools_path r of
                  None \<Rightarrow> CacheRaise (exists_type_error e)
                | Some q \<Rightarrow> if path_exists e i q then CacheHit p q else CacheMiss))"

definition cache_lookup :: "env \<Rightarrow> nat \<Rightarrow> string \<Rightarrow> world \<Rightarrow> cache_check" where
  "cache_lookup e i u w =
     (case get_cached_scrape (db_clock e (tick w)) u (db w) of
        None \<Rightarrow> CacheMiss
      | Some r \<Rightarrow> cached_files_exist e i r)"

text \<open>An entry of \<^verbatim>\<open>competitors_data\<close>: name, url, inventory path, tools path.\<close>

type_synonym comp_data = "string \<times> string \<times> string \<times> string"

text \<open>
  \<^verbatim>\<open>for attempt in range(1, self.scraper_max_retries + 1)\<close>: \<open>a\<close> is the attempt, \<open>n\<close> the
  number of attempts left. A successful attempt saves to the cache, marks the competitor
  \<^verbatim>\<open>completed\<close> and leaves the loop; the result is the pair of paths of the successful
  attempt, if any.
\<close>

fun scrape_attempts ::
  "env \<Rightarrow> config \<Rightarrow> string \<Rightarrow> nat \<Rightarrow> competitor \<Rightarrow> nat \<Rightarrow> nat \<Rightarrow> world \<Rightarrow>
   (string \<times> string) option \<times> world" where
  "scrape_attempts e cfg jid i c a 0 w = (None, w)"
| "scrape_attempts e cfg jid i c a (Suc n) w =
     (case run_scraper e i a of
        Inr (ipath, tpath, veh, tools) \<Rightarrow>
          (Some (ipath, tpath),
           job_update_competitor e jid (competitor_url c) ''completed''
             (Some ipath) (Some tpath) None
             (cache_save e cfg (competitor_url c) (competitor_name c) ipath tpath veh tools
                (w\<lparr>trace := trace w @ [ScraperRun i a]\<rparr>)))
      | Inl x \<Rightarrow>
          scrape_attempts e cfg jid i c (a + 1) n (w\<lparr>trace := trace w @ [ScraperRun i a]\<rparr>))"

text \<open>\<^verbatim>\<open>for remaining_comp in job['competitors'][i:]\<close>: each is marked \<^verbatim>\<open>aborted\<close>.\<close>

fun mark_aborted :: "env \<Rightarrow> string \<Rightarrow> competitor list \<Rightarrow> world \<Rightarrow> world" where
  "mark_aborted e jid [] w = w"
| "mark_aborted e jid (c # cs) w =
     mark_aborted e jid cs
       (job_update_competitor e jid (competitor_url c) ''aborted'' None None
          (Some ''Job aborted due to multiple failures'') w)"

text \<open>
  One iteration of the loop over \<^verbatim>\<open>enumerate(job['competitors'], 1)\<close>, for competitor
  \<open>c\<close> at position \<open>i\<close> (from 1) of the list \<open>comps\<close>, with the local variables
  \<^verbatim>\<open>completed_steps\<close>, \<^verbatim>\<open>failed_competitors\<close> and \<^verbatim>\<open>competitors_data\<close>. The iteration goes
  on to the next competitor with new values of the three, returns from \<^verbatim>\<open>process_job\<close>
  after the abort rule, or raises.
\<close>

datatype body_result =
  Continue int nat "comp_data list" world
| Abort world
| Raise string world

definition resolve_competitor ::
  "env \<Rightarrow> config \<Rightarrow> string \<Rightarrow> competitor list \<Rightarrow> nat \<Rightarrow> competitor \<Rightarrow> int \<Rightarrow> nat \<Rightarrow>
   comp_data list \<Rightarrow> world \<Rightarrow> body_result" where
  "resolve_competitor e cfg jid comps i c completed failed data w =
     (let u = competitor_url c; name = competitor_name c;
          w1 = w\<lparr>tick := tick w + 1\<rparr>
      in case cache_lookup e i u w of
           CacheRaise x \<Rightarrow> Raise x w1
         | CacheHit p q \<Rightarrow>
             Continue (completed + 1) failed (data @ [(name, u, p, q)])
               (job_update_progress e jid (completed + 1)
                  (job_update_competitor e jid u ''completed'' (Some p) (Some q) None w1))
         | CacheMiss \<Rightarrow>
             (case scrape_attempts e cfg jid i c 1 (nat (scraper_max_retries cfg)) w1 of
                (Some (ipath, tpath), w2) \<Rightarrow>
                  Continue (completed + 1) failed (data @ [(name, u, ipath, tpath)])
                    (job_update_progress e jid (completed + 1) w2)
              | (None, w2) \<Rightarrow>
                  (let w3 = job_update_competitor e jid u ''failed'' None None
                              (Some (''Scraping failed after '' @
                                     str_int (scraper_max_retries cfg) @ '' retries'')) w2
                   in if 2 \<le> failed + 1
                      then Abort
                        (job_update_status e jid ''failed'' None
                           (Some (''Aborting: '' @ str_nat (failed + 1) @
                                  '' competitors failed (threshold: 2)''))
                           (mark_aborted e jid (drop i comps) w3))
                      else Continue (completed + 1) (failed + 1) data
                             (job_update_progress e jid (completed + 1) w3))))"

datatype loop_result =
  LoopDone int "comp_data list" world
| LoopAborted world
| LoopRaised string world

fun competitor_loop ::
  "env \<Rightarrow> config \<Rightarrow> string \<Rightarrow> competitor list \<Rightarrow> nat \<Rightarrow> competitor list \<Rightarrow> int \<Rightarrow> nat \<Rightarrow>
   comp_data list \<Rightarrow> world \<Rightarrow> loop_result" where
  "competitor_loop e cfg jid comps i [] completed failed data w = LoopDone completed data w"
| "competitor_loop e cfg jid comps i (c # rest) completed failed data w =
     (case resolve_competitor e cfg jid comps i c completed failed data w of
        Continue completed' failed' data' w' \<Rightarrow>
          competitor_loop e cfg jid comps (i + 1) rest completed' failed' data' w'
      | Abort w' \<Rightarrow> LoopAborted w'
      | Raise x w' \<Rightarrow> LoopRaised x w')"

subsection \<open>Phases 3 to 5 and \<^verbatim>\<open>process_job\<close>\<close>

text \<open>
  \<^verbatim>\<open>for attempt in range(1, self.email_max_retries + 1)\<close>; the result is
  \<^verbatim>\<open>email_success\<close>.
\<close>

fun email_attempts :: "env \<Rightarrow> nat \<Rightarrow> nat \<Rightarrow> world \<Rightarrow> bool \<times> world" where
  "email_attempts e a 0 w = (False, w)"
| "email_attempts e a (Suc n) w =
     (case send_email e a of
        None \<Rightarrow> (True, w\<lparr>trace := trace w @ [EmailSend a]\<rparr>)
      | Some x \<Rightarrow> email_attempts e (a + 1) n (w\<lparr>trace := trace w @ [EmailSend a]\<rparr>))"

definition finalize_phase :: "env \<Rightarrow> string \<Rightarrow> int \<Rightarrow> world \<Rightarrow> bool \<times> world" where
  "finalize_phase e jid completed w =
     (True, job_update_progress e jid (completed + 1)
              (job_update_status e jid ''completed'' (Some ''Completed'') None w))"

definition email_phase :: "env \<Rightarrow> config \<Rightarrow> string \<Rightarrow> int \<Rightarrow> world \<Rightarrow> bool \<times> world" where
  "email_phase e cfg jid completed w =
     (case email_attempts e 1 (nat (email_max_retries cfg))
             (job_update_status e jid ''processing'' (Some ''Sending email'') None w) of
        (False, w2) \<Rightarrow>
          fail_job e jid
            (''Email failed after '' @ str_int (email_max_retries cfg) @ '' retries'') w2
      | (True, w2) \<Rightarrow>
          finalize_phase e jid (completed + 1) (job_update_progress e jid (completed + 1) w2))"

definition analysis_phase ::
  "env \<Rightarrow> config \<Rightarrow> string \<Rightarrow> int \<Rightarrow> comp_data list \<Rightarrow> world \<Rightarrow> bool \<times> world" where
  "analysis_phase e cfg jid completed data w =
     (let w1 = job_update_status e jid ''processing'' (Some ''Running analysis'') None w;
          w2 = w1\<lparr>trace := trace w1 @ [AnalysisRun]\<rparr>
      in case run_analysis e (map (\<lambda>(name, u, ipath, tpath). (ipath, tpath)) data) of
           Some x \<Rightarrow> fail_job e jid (''Analysis failed: '' @ x) w2
         | None \<Rightarrow>
             email_phase e cfg jid (completed + 1)
               (job_update_progress e jid (completed + 1) w2))"

text \<open>What \<^verbatim>\<open>process_job\<close> does once the loop over the competitors has ended.\<close>

fun after_loop :: "env \<Rightarrow> config \<Rightarrow> string \<Rightarrow> loop_result \<Rightarrow> bool \<times> world" where
  "after_loop e cfg jid (LoopAborted w) = (False, w)"
| "after_loop e cfg jid (LoopRaised x w) = fail_job e jid (''Unexpected error: '' @ x) w"
| "after_loop e cfg jid (LoopDone completed data w) =
     (if length data = 0 then fail_job e jid ''No competitors scraped successfully'' w
      else analysis_phase e cfg jid completed data w)"

text \<open>
  \<^verbatim>\<open>process_job\<close>: the returned flag and the state afterwards. \<^verbatim>\<open>get_job\<close> is one store
  operation; a job that is not found changes nothing. Errors of the store itself are
  outside the model.
\<close>

definition process_job :: "env \<Rightarrow> config \<Rightarrow> string \<Rightarrow> world \<Rightarrow> bool \<times> world" where
  "process_job e cfg jid w =
     (case lookup_job (db w) jid of
        None \<Rightarrow> (False, w\<lparr>tick := tick w + 1\<rparr>)
      | Some job \<Rightarrow>
          (let comps = job_competitor_rows (db w) jid;
               w1 = job_update_status e jid ''processing'' (Some ''Starting'') None
                      (w\<lparr>tick := tick w + 1\<rparr>);
               meta = convert_metadata (metadata job)
           in case prepare_data_folder e jid (data_folder job) of
                Some x \<Rightarrow> fail_job e jid (''Unexpected error: '' @ x) w1
              | None \<Rightarrow>
                  (let w2 = job_update_status e jid ''processing''
                              (Some ''Saving client data'') None w1
                   in case inventory_error e meta of
                        Some x \<Rightarrow> fail_job e jid (''Inventory data error: '' @ x) w2
                      | None \<Rightarrow>
                          (case tools_error e meta of
                             Some x \<Rightarrow> fail_job e jid (''Tools data error: '' @ x) w2
                           | None \<Rightarrow>
                               after_loop e cfg jid
                                 (competitor_loop e cfg jid comps 1 comps 1 0 []
                                    (job_update_progress e jid 1 w2))))))"

section \<open>Observations of a run\<close>

text \<open>The calls of collaborators among the events.\<close>

fun is_call :: "event \<Rightarrow> bool" where
  "is_call (Observed r) = False"
| "is_call (ScraperRun i a) = True"
| "is_call AnalysisRun = True"
| "is_call (EmailSend a) = True"

text \<open>Status, \<^verbatim>\<open>completed_steps\<close> and \<^verbatim>\<open>total_steps\<close> of an observed job row.\<close>

fun observed_steps :: "event \<Rightarrow> (string \<times> int \<times> int) option" where
  "observed_steps (Observed (Some j)) = Some (status j, completed_steps j, total_steps j)"
| "observed_steps (Observed None) = None"
| "observed_steps (ScraperRun i a) = None"
| "observed_steps AnalysisRun = None"
| "observed_steps (EmailSend a) = None"

text \<open>
  The invariant of the step counter, used in the proofs: what holds of every observed row
  (\<open>steps_ok\<close>, \<open>trace_ok\<close>), and what holds of the state while the job is being processed:
  the row exists with \<open>N\<close> steps in total and \<open>cs < N\<close> of them completed, is not
  \<^verbatim>\<open>completed\<close>, and every observation so far was in order.
\<close>

definition steps_ok :: "job \<Rightarrow> bool" where
  "steps_ok j \<longleftrightarrow>
     completed_steps j \<le> total_steps j \<and>
     (completed_steps j = total_steps j \<longrightarrow> status j = ''completed'') \<and>
     (status j = ''completed'' \<longrightarrow> total_steps j \<le> completed_steps j + 1)"

definition trace_ok :: "event list \<Rightarrow> bool" where
  "trace_ok evs \<longleftrightarrow> (\<forall>j. Observed (Some j) \<in> set evs \<longrightarrow> steps_ok j)"

definition in_progress :: "int \<Rightarrow> string \<Rightarrow> int \<Rightarrow> world \<Rightarrow> bool" where
  "in_progress N jid cs w \<longleftrightarrow>
     (\<exists>j. lookup_job (db w) jid = Some j \<and> total_steps j = N \<and> completed_steps j = cs \<and>
          status j \<noteq> ''completed'') \<and>
     cs < N \<and> trace_ok (trace w)"

text \<open>
  What the competitor rows of a job show, in the order of the table: their statuses and
  their error messages; the statuses of the rows with a given URL; the persisted
  \<^verbatim>\<open>completed_steps\<close> of the job; and how many statuses are those of a resolved
  competitor (\<^verbatim>\<open>completed\<close> or \<^verbatim>\<open>failed\<close>).
\<close>

definition statuses :: "store \<Rightarrow> string \<Rightarrow> string list" where
  "statuses s jid = map jc_status (job_competitor_rows s jid)"

definition reasons :: "store \<Rightarrow> string \<Rightarrow> string option list" where
  "reasons s jid = map jc_error_message (job_competitor_rows s jid)"

definition url_statuses :: "store \<Rightarrow> string \<Rightarrow> string \<Rightarrow> string list" where
  "url_statuses s jid u =
     map jc_status (filter (\<lambda>r. competitor_url r = u) (job_competitor_rows s jid))"

definition persisted_steps :: "store \<Rightarrow> string \<Rightarrow> int option" where
  "persisted_steps s jid = map_option completed_steps (lookup_job s jid)"

definition resolved :: "string list \<Rightarrow> nat" where
  "resolved sts = length (filter (\<lambda>s. s = ''completed'' \<or> s = ''failed'') sts)"

text \<open>
  The scraper fails for good on competitor number \<open>i\<close>: each of the attempts
  \<^verbatim>\<open>range(1, scraper_max_retries + 1)\<close> raises.
\<close>

definition all_attempts_fail :: "env \<Rightarrow> config \<Rightarrow> nat \<Rightarrow> bool" where
  "all_attempts_fail e cfg i =
     list_all (\<lambda>a. isl (run_scraper e i a)) [1..<Suc (nat (scraper_max_retries cfg))]"

text \<open>
  The invariant of the competitor loop, used in the proofs.
  \<^item> \<open>history_ok\<close>: \<open>ds\<close> are the statuses of the competitors resolved so far, each
    \<^verbatim>\<open>completed\<close> or \<^verbatim>\<open>failed\<close>; one is \<^verbatim>\<open>failed\<close> only if all its attempts fail;
    one whose attempts all fail is \<^verbatim>\<open>completed\<close> only if the scraper was never called
    for it; the scraper was called for no later competitor, and the analysis and the email
    were not called.
  \<^item> \<open>loop_inv\<close>: the state before competitor number \<open>k + 1\<close> (\<open>urls\<close> are the URLs of
    the job's rows, \<open>c0\<close> the steps completed before the loop, \<open>f\<close> the local
    \<^verbatim>\<open>failed_competitors\<close>): the first \<open>k\<close> rows are resolved, \<open>f\<close> of them
    \<^verbatim>\<open>failed\<close>, the others are \<^verbatim>\<open>pending\<close>, \<open>c0 + k\<close> steps are persisted, and
    \<open>f \<le> 1\<close>.
  \<^item> \<open>aborted_at\<close>: the state in which the abort rule leaves the job when competitor
    number \<open>k + 1\<close> is the second to fail.
  \<^item> \<open>later_phase\<close>: what the phases after the loop leave unchanged; \<open>unaborted\<close>: the
    state at the end of a run that did not end by the abort rule.
\<close>

definition history_ok :: "env \<Rightarrow> config \<Rightarrow> string list \<Rightarrow> event list \<Rightarrow> bool" where
  "history_ok e cfg ds evs \<longleftrightarrow>
     set ds \<subseteq> {''completed'', ''failed''} \<and>
     (\<forall>p < length ds. ds ! p = ''failed'' \<longrightarrow> all_attempts_fail e cfg (Suc p)) \<and>
     (\<forall>p < length ds. ds ! p = ''completed'' \<and> all_attempts_fail e cfg (Suc p) \<longrightarrow>
          (\<forall>a. ScraperRun (Suc p) a \<notin> set evs)) \<and>
     (\<forall>p a. ScraperRun p a \<in> set evs \<longrightarrow> p \<le> length ds) \<and>
     AnalysisRun \<notin> set evs \<and> (\<forall>a. EmailSend a \<notin> set evs)"

definition loop_inv ::
  "env \<Rightarrow> config \<Rightarrow> string \<Rightarrow> string list \<Rightarrow> int \<Rightarrow> nat \<Rightarrow> nat \<Rightarrow> world \<Rightarrow> bool" where
  "loop_inv e cfg jid urls c0 k f w \<longleftrightarrow>
     map competitor_url (job_competitor_rows (db w) jid) = urls \<and>
     (\<exists>ds. statuses (db w) jid = ds @ replicate (length urls - k) ''pending'' \<and>
           length ds = k \<and> count_list ds ''failed'' = f \<and> history_ok e cfg ds (trace w)) \<and>
     (\<exists>j. lookup_job (db w) jid = Some j \<and> completed_steps j = c0 + int k) \<and>
     f \<le> 1 \<and> k \<le> length urls"

definition aborted_at ::
  "env \<Rightarrow> config \<Rightarrow> string \<Rightarrow> string list \<Rightarrow> int \<Rightarrow> nat \<Rightarrow> world \<Rightarrow> bool" where
  "aborted_at e cfg jid urls c0 k w \<longleftrightarrow>
     k < length urls \<and>
     map competitor_url (job_competitor_rows (db w) jid) = urls \<and>
     (\<exists>ds. statuses (db w) jid =
             (ds @ [''failed'']) @ replicate (length urls - Suc k) ''aborted'' \<and>
           length ds = k \<and> count_list ds ''failed'' = 1 \<and>
           history_ok e cfg (ds @ [''failed'']) (trace w)) \<and>
     drop (Suc k) (reasons (db w) jid) =
       replicate (length urls - Suc k) (Some ''Job aborted due to multiple failures'') \<and>
     (\<exists>j. lookup_job (db w) jid = Some j \<and> status j = ''failed'' \<and>
          error_message j = Some ''Aborting: 2 competitors failed (threshold: 2)'' \<and>
          completed_steps j = c0 + int k)"

definition later_phase :: "world \<Rightarrow> world \<Rightarrow> bool" where
  "later_phase w w' \<longleftrightarrow>
     job_competitors (db w') = job_competitors (db w) \<and>
     (\<forall>p a. ScraperRun p a \<in> set (trace w') \<longleftrightarrow> ScraperRun p a \<in> set (trace w))"

definition unaborted :: "env \<Rightarrow> config \<Rightarrow> string \<Rightarrow> nat \<Rightarrow> world \<Rightarrow> bool" where
  "unaborted e cfg jid n w' \<longleftrightarrow>
     (\<exists>ds evs. statuses (db w') jid = ds @ replicate (n - length ds) ''pending'' \<and>
        length ds \<le> n \<and> count_list ds ''failed'' \<le> 1 \<and> history_ok e cfg ds evs \<and>
        (\<forall>p a. ScraperRun p a \<in> set (trace w') \<longleftrightarrow> ScraperRun p a \<in> set evs))"

section \<open>Concrete inputs\<close>

text \<open>
  The inputs at which the theorems below are evaluated: an empty database, and the job
  \<^verbatim>\<open>job_1\<close> that \<^verbatim>\<open>create_job\<close> makes at time 0 for one competitor (so
  \<^verbatim>\<open>total_steps = 5\<close>).
\<close>

definition empty_store :: store where
  "empty_store =
     \<lparr>jobs = [], job_competitors = [], scraped_sites = [], competitor_seq = 0, site_seq = 0\<rparr>"

definition created :: "store option \<Rightarrow> store" where
  "created r = (case r of Some d \<Rightarrow> d | None \<Rightarrow> empty_store)"

definition store_one_job :: store where
  "store_one_job =
     created (create_job 0 ''job_1'' ''Client'' ''client@example.com''
                [(''http://a.example'', ''A'')] (Some ''data/jobs/job_1'')
                [(''inventory_json'', JStr ''[]''), (''tools_json'', JStr ''[]'')] empty_store)"

text \<open>The same job ten days later, completed on its first day.\<close>

definition store_old_job :: store where
  "store_old_job =
     update_status 1000 ''job_1'' ''completed'' (Some ''Completed'') None store_one_job"

definition never :: "string \<Rightarrow> bool" where
  "never p = False"

text \<open>A cache with one entry, saved at time 0 with a TTL of seven days.\<close>

definition save_a :: save_call where
  "save_a =
     \<lparr>sc_py_now = 0, sc_db_now = 0, sc_url = ''http://a.example'', sc_dealership_name = ''A'',
      sc_inventory_path = ''data/jobs/job_0/A_0_inventory.json'',
      sc_tools_path = ''data/jobs/job_0/A_0_tools.json'', sc_vehicle_count = 12,
      sc_tools_count = 3, sc_status = ''success'', sc_error_message = None\<rparr>"

text \<open>A later save for the same URL, with other values.\<close>

definition save_a_again :: save_call where
  "save_a_again =
     \<lparr>sc_py_now = 5000000, sc_db_now = 5000001, sc_url = ''http://a.example'',
      sc_dealership_name = ''A Motors'',
      sc_inventory_path = ''data/jobs/job_1/A_5_inventory.json'',
      sc_tools_path = ''data/jobs/job_1/A_5_tools.json'', sc_vehicle_count = 40,
      sc_tools_count = 2, sc_status = ''success'', sc_error_message = None\<rparr>"

definition store_cached :: store where
  "store_cached = save_scrape 7 save_a empty_store"

text \<open>
  Jobs for \<^verbatim>\<open>process_job\<close>: \<^verbatim>\<open>job_3\<close> with three competitors, \<^verbatim>\<open>job_0\<close> with none,
  and \<^verbatim>\<open>job_m\<close> with none and the empty metadata that \<^verbatim>\<open>create_job\<close> stores when it is
  given \<^verbatim>\<open>None\<close>.
\<close>

definition store_three :: store where
  "store_three =
     created (create_job 0 ''job_3'' ''Client'' ''client@example.com''
                [(''http://a.example'', ''A''), (''http://b.example'', ''B''),
                 (''http://c.example'', ''C'')] (Some ''data/jobs/job_3'')
                [(''inventory_json'', JStr ''[]''), (''tools_json'', JStr ''[]'')] empty_store)"

definition store_no_competitors :: store where
  "store_no_competitors =
     created (create_job 0 ''job_0'' ''Client'' ''client@example.com'' []
                (Some ''data/jobs/job_0'')
                [(''inventory_json'', JStr ''[]''), (''tools_json'', JStr ''[]'')] empty_store)"

definition store_no_metadata :: store where
  "store_no_metadata =
     created (create_job 0 ''job_m'' ''Client'' ''client@example.com'' []
                (Some ''data/jobs/job_m'') [] empty_store)"

definition start :: "store \<Rightarrow> world" where
  "start s = \<lparr>db = s, tick = 0, trace = []\<rparr>"

text \<open>The default configuration: TTL seven days, two scraper attempts, three email attempts.\<close>

definition default_config :: config where
  "default_config = \<lparr>cache_ttl_days = 7, scraper_max_retries = 2, email_max_retries = 3\<rparr>"

text \<open>
  Environments: one in which every collaborator succeeds and nothing is on disk, and its
  variants in which the scraper always fails, the email fails twice and then succeeds, and
  the email always fails. \<open>key_error_repr\<close> is Python's \<^verbatim>\<open>str\<close> of the
  \<^verbatim>\<open>KeyError\<close> that step 1 raises, for keys that need no escaping: the message in
  double quotes, the keys as a list of strings in single quotes.
\<close>

fun py_list_repr :: "string list \<Rightarrow> string" where
  "py_list_repr [] = []"
| "py_list_repr [k] = [CHR 0x27] @ k @ [CHR 0x27]"
| "py_list_repr (k # k' # ks) = [CHR 0x27] @ k @ [CHR 0x27] @ '', '' @ py_list_repr (k' # ks)"

definition key_error_repr :: "string list \<Rightarrow> string" where
  "key_error_repr ks =
     [CHR 0x22, CHR 0x27] @ ''inventory_json'' @ [CHR 0x27] @
     '' not found in metadata. Available keys: ['' @ py_list_repr ks @ '']'' @ [CHR 0x22]"

definition env_ok :: env where
  "env_ok =
     \<lparr>db_clock = (\<lambda>n. 2000 + int n), py_clock = (\<lambda>n. 2000 + int n),
      makedirs_error = (\<lambda>p. None),
      key_error_text = key_error_repr,
      tools_key_error_text = [CHR 0x27] @ ''tools_json'' @ [CHR 0x27],
      write_inventory = (\<lambda>s. None), write_tools = (\<lambda>s. None),
      write_type_error = ''write() argument must be str, not int'',
      path_exists = (\<lambda>i p. False),
      exists_type_error =
        ''stat: path should be string, bytes, os.PathLike or integer, not NoneType'',
      run_scraper =
        (\<lambda>i a. Inr (''data/jobs/job/competitor_2000_inventory.json'',
                       ''data/jobs/job/competitor_2000_tools.json'', 10, 2)),
      run_analysis = (\<lambda>files. None),
      send_email = (\<lambda>a. None)\<rparr>"

definition env_scraper_down :: env where
  "env_scraper_down = env_ok\<lparr>run_scraper := (\<lambda>i a. Inl ''Scraper failed with exit code 1'')\<rparr>"

definition env_email_flaky :: env where
  "env_email_flaky =
     env_ok\<lparr>send_email := (\<lambda>a. if a < 3 then Some ''Email send failed'' else None)\<rparr>"

definition env_email_down :: env where
  "env_email_down = env_ok\<lparr>send_email := (\<lambda>a. Some ''Email send failed'')\<rparr>"

text \<open>
  The scraper works for the second competitor only: the first and the third fail for good.
\<close>

definition env_second_only :: env where
  "env_second_only =
     env_ok\<lparr>run_scraper :=
       (\<lambda>i a. if i = 2 then run_scraper env_ok i a else Inl ''Scraper failed with exit code 1'')\<rparr>"

section \<open>Properties of the store operations\<close>

lemmas example_defs = store_one_job_def created_def create_job_def empty_store_def

lemma find_map_if:
  "find P xs = Some x \<Longrightarrow> (\<And>y. P y \<Longrightarrow> P (f y)) \<Longrightarrow>
   find P (map (\<lambda>y. if P y then f y else y) xs) = Some (f x)"
  by (induction xs) (auto split: if_splits)

lemma update_progress_lookup:
  "lookup_job s jid = Some j \<Longrightarrow>
   lookup_job (update_progress now jid n s) jid = Some (update_progress_row now n j)"
  unfolding lookup_job_def update_progress_def
  by (simp add: find_map_if update_progress_row_def)

lemma update_status_lookup:
  "lookup_job s jid = Some j \<Longrightarrow>
   lookup_job (update_status now jid st step err s) jid =
     Some (update_status_row now st step err j)"
  unfolding lookup_job_def update_status_def
  by (simp add: find_map_if update_status_row_def)

text \<open>
  Claim C2. After \<^verbatim>\<open>update_progress(job_id, n)\<close> the row should hold
  \<^verbatim>\<open>completed_steps = n\<close> and a percentage computed from \<open>n\<close>. On the fresh job
  \<^verbatim>\<open>job_1\<close> (five steps, none completed) the call with \<open>n = 1\<close> stores
  \<^verbatim>\<open>completed_steps = 1\<close> and the percentage 0, computed from the old value 0, where 20
  is claimed.
\<close>

theorem update_progress_stale_percentage:
  "map (\<lambda>j. (completed_steps j, total_steps j, progress_percentage j))
     (jobs (update_progress 5 ''job_1'' 1 store_one_job)) = [(1, 5, Some 0)]"
  by (simp add: example_defs update_progress_def update_progress_row_def percentage_def
      pg_round_div_def)

text \<open>
  Claim C6, as the code has it. For an existing job every \<^verbatim>\<open>update_status\<close> sets
  \<^verbatim>\<open>updated_at\<close>; a call with status \<^verbatim>\<open>processing\<close> and a non-empty
  \<^verbatim>\<open>current_step\<close> sets \<^verbatim>\<open>started_at\<close> when it is null and keeps it otherwise; any other
  call leaves \<^verbatim>\<open>started_at\<close> as it is; a call with status \<^verbatim>\<open>completed\<close> or \<^verbatim>\<open>failed\<close>
  sets \<^verbatim>\<open>completed_at\<close>.
\<close>

theorem update_status_timestamps:
  assumes "lookup_job s jid = Some j"
  shows "\<exists>j'. lookup_job (update_status now jid st step err s) jid = Some j' \<and>
           updated_at j' = now \<and>
           (st = ''processing'' \<and> truthy step \<longrightarrow>
              started_at j' = Some (case started_at j of None \<Rightarrow> now | Some t \<Rightarrow> t)) \<and>
           (\<not> (st = ''processing'' \<and> truthy step) \<longrightarrow> started_at j' = started_at j) \<and>
           (st = ''completed'' \<or> st = ''failed'' \<longrightarrow> completed_at j' = Some now)"
  using update_status_lookup [OF assms, of now st step err]
  by (auto simp: update_status_row_def split: option.splits)

theorem update_status_timestamps_witness:
  "lookup_job store_one_job ''job_1'' \<noteq> None \<and>
   (\<exists>j'. lookup_job (update_status 7 ''job_1'' ''processing'' (Some ''Starting'') None
             store_one_job) ''job_1'' = Some j' \<and>
          updated_at j' = 7 \<and> started_at j' = Some 7 \<and> completed_at j' = None)"
proof -
  have h: "lookup_job store_one_job ''job_1'' = Some (hd (jobs store_one_job))"
    by (simp add: example_defs lookup_job_def)
  have n: "started_at (hd (jobs store_one_job)) = None"
    by (simp add: example_defs)
  have "completed_at j' = None"
    if "lookup_job (update_status 7 ''job_1'' ''processing'' (Some ''Starting'') None
             store_one_job) ''job_1'' = Some j'" for j'
    using that
    by (auto simp: example_defs lookup_job_def update_status_def update_status_row_def)
  with update_status_timestamps [OF h, of 7 "''processing''" "Some ''Starting''" None] n h
  show ?thesis by auto
qed

text \<open>
  Claim C6 as stated fails: \<^verbatim>\<open>update_status(job_id, 'processing')\<close> without a
  \<^verbatim>\<open>current_step\<close> leaves a null \<^verbatim>\<open>started_at\<close> null.
\<close>

theorem update_status_processing_without_step:
  "map started_at (jobs (update_status 7 ''job_1'' ''processing'' None None store_one_job)) =
     [None]"
  by (simp add: example_defs update_status_def update_status_row_def)

lemma find_Some_unique:
  "distinct (map f xs) \<Longrightarrow> x \<in> set xs \<Longrightarrow> P x \<Longrightarrow> (\<And>y. P y \<Longrightarrow> f y = f x) \<Longrightarrow>
   find P xs = Some x"
proof (induction xs)
  case Nil
  then show ?case by simp
next
  case (Cons a xs)
  show ?case
  proof (cases "a = x")
    case True
    with Cons.prems(3) show ?thesis by simp
  next
    case False
    with Cons.prems(2) have mem: "x \<in> set xs" by simp
    then have "f x \<in> f ` set xs" by blast
    with Cons.prems(1) have "f a \<noteq> f x" by auto
    with Cons.prems(4) have na: "\<not> P a" by blast
    from Cons.prems(1) have "distinct (map f xs)" by simp
    from Cons.IH [OF this mem Cons.prems(3) Cons.prems(4)] have "find P xs = Some x" by simp
    with na show ?thesis by simp
  qed
qed

text \<open>
  Claim C7. The \<^verbatim>\<open>UNIQUE\<close> constraint keeps the URLs of \<^verbatim>\<open>scraped_sites\<close> distinct.
  Then \<^verbatim>\<open>get_cached_scrape(url)\<close> returns a row exactly when it is the stored row of
  that URL, its \<^verbatim>\<open>cache_valid_until\<close> is strictly later than the current time and its
  status is \<^verbatim>\<open>success\<close>; it reports a miss exactly when no such row exists, so an expired
  entry is a miss whatever its status. The function reads the table and the clock only:
  the disk is not among its arguments.
\<close>

theorem get_cached_scrape_hit_iff:
  assumes "distinct (map url (scraped_sites s))"
  shows "(get_cached_scrape now u s = Some r \<longleftrightarrow>
            r \<in> set (scraped_sites s) \<and> url r = u \<and> now < cache_valid_until r \<and>
            ss_status r = ''success'') \<and>
         (get_cached_scrape now u s = None \<longleftrightarrow>
            \<not> (\<exists>r' \<in> set (scraped_sites s). url r' = u \<and> now < cache_valid_until r' \<and>
                  ss_status r' = ''success''))"
proof -
  let ?P = "\<lambda>r. url r = u \<and> now < cache_valid_until r \<and> ss_status r = ''success''"
  have hit: "get_cached_scrape now u s = Some r \<longleftrightarrow> r \<in> set (scraped_sites s) \<and> ?P r"
  proof
    assume "get_cached_scrape now u s = Some r"
    then show "r \<in> set (scraped_sites s) \<and> ?P r"
      unfolding get_cached_scrape_def by (auto simp: find_Some_iff)
  next
    assume a: "r \<in> set (scraped_sites s) \<and> ?P r"
    have "find ?P (scraped_sites s) = Some r"
      by (rule find_Some_unique [where f = url]) (use a assms in auto)
    then show "get_cached_scrape now u s = Some r"
      unfolding get_cached_scrape_def .
  qed
  have miss: "get_cached_scrape now u s = None \<longleftrightarrow> \<not> (\<exists>r' \<in> set (scraped_sites s). ?P r')"
    unfolding get_cached_scrape_def by (auto simp: find_None_iff)
  from hit miss show ?thesis by blast
qed

text \<open>
  At the cache of one entry saved at time 0 for seven days: a hit one microsecond before
  the entry expires, a miss one second after, the status still being \<^verbatim>\<open>success\<close>.
\<close>

theorem get_cached_scrape_hit_iff_witness:
  "distinct (map url (scraped_sites store_cached)) \<and>
   map ss_status (scraped_sites store_cached) = [''success''] \<and>
   get_cached_scrape (timedelta_days 7 - 1) ''http://a.example'' store_cached =
     Some (hd (scraped_sites store_cached)) \<and>
   get_cached_scrape (timedelta_days 7 + 1000000) ''http://a.example'' store_cached = None"
proof -
  have d: "distinct (map url (scraped_sites store_cached))"
    by (simp add: store_cached_def save_scrape_def excluded_row_def save_a_def empty_store_def)
  from get_cached_scrape_hit_iff [OF d, of "timedelta_days 7 - 1" "''http://a.example''"
      "hd (scraped_sites store_cached)"]
    get_cached_scrape_hit_iff [OF d, of "timedelta_days 7 + 1000000" "''http://a.example''"]
  show ?thesis
    by (simp add: store_cached_def save_scrape_def excluded_row_def save_a_def
        empty_store_def timedelta_days_def)
qed

lemma filter_distinct_single:
  "distinct (map f xs) \<Longrightarrow> u \<in> set (map f xs) \<Longrightarrow> \<exists>x. filter (\<lambda>r. f r = u) xs = [x]"
proof (induction xs)
  case Nil
  then show ?case by simp
next
  case (Cons a xs)
  show ?case
  proof (cases "f a = u")
    case True
    from Cons.prems(1) have "f a \<notin> f ` set xs" by simp
    then have "\<forall>r \<in> set xs. f r \<noteq> f a" by (metis image_eqI)
    with True have "\<forall>r \<in> set xs. f r \<noteq> u" by simp
    then have "filter (\<lambda>r. f r = u) xs = []" by (simp add: filter_empty_conv)
    with True show ?thesis by simp
  next
    case False
    with Cons show ?thesis by auto
  qed
qed

lemma save_scrape_urls:
  "sc_url c \<in> set (map url (scraped_sites s)) \<Longrightarrow>
   map url (scraped_sites (save_scrape ttl c s)) = map url (scraped_sites s)"
  by (simp add: save_scrape_def excluded_row_def comp_def cong: if_cong)

lemma save_scrape_distinct:
  assumes "distinct (map url (scraped_sites s))"
  shows "distinct (map url (scraped_sites (save_scrape ttl c s)))"
proof (cases "sc_url c \<in> set (map url (scraped_sites s))")
  case True
  with assms show ?thesis by (simp only: save_scrape_urls)
next
  case False
  with assms show ?thesis by (simp add: save_scrape_def excluded_row_def)
qed

lemma save_scrape_same:
  assumes "distinct (map url (scraped_sites s))"
  shows "\<exists>i. filter (\<lambda>r. url r = sc_url c) (scraped_sites (save_scrape ttl c s)) =
              [excluded_row ttl c i]"
proof (cases "sc_url c \<in> set (map url (scraped_sites s))")
  case True
  from filter_distinct_single [OF assms True]
  obtain x where x: "filter (\<lambda>r. url r = sc_url c) (scraped_sites s) = [x]" by blast
  have "filter (\<lambda>r. url r = sc_url c)
          (map (\<lambda>r. if url r = sc_url c then excluded_row ttl c (ss_id r) else r) xs) =
        map (\<lambda>r. excluded_row ttl c (ss_id r)) (filter (\<lambda>r. url r = sc_url c) xs)" for xs
    by (induction xs) (auto simp: excluded_row_def)
  with True x show ?thesis
    by (auto simp: save_scrape_def)
next
  case False
  then have "filter (\<lambda>r. url r = sc_url c) (scraped_sites s) = []"
    by (auto simp: filter_empty_conv image_iff)
  with False show ?thesis
    by (simp add: save_scrape_def excluded_row_def)
qed

lemma save_scrape_other:
  assumes "sc_url c \<noteq> u"
  shows "filter (\<lambda>r. url r = u) (scraped_sites (save_scrape ttl c s)) =
         filter (\<lambda>r. url r = u) (scraped_sites s)"
proof -
  have "filter (\<lambda>r. url r = u)
          (map (\<lambda>r. if url r = sc_url c then excluded_row ttl c (ss_id r) else r) xs) =
        filter (\<lambda>r. url r = u) xs" for xs
    using assms by (induction xs) (auto simp: excluded_row_def)
  with assms show ?thesis
    by (simp add: save_scrape_def excluded_row_def)
qed

lemma save_all_snoc: "save_all ttl (cs @ [c]) s = save_scrape ttl c (save_all ttl cs s)"
  by (induction cs arbitrary: s) auto

lemma save_all_distinct:
  "distinct (map url (scraped_sites s)) \<Longrightarrow>
   distinct (map url (scraped_sites (save_all ttl cs s)))"
  by (induction cs arbitrary: s) (auto simp: save_scrape_distinct)

lemma save_all_last:
  assumes "distinct (map url (scraped_sites s))"
    and "filter (\<lambda>c. sc_url c = u) calls \<noteq> []"
  shows "\<exists>i. filter (\<lambda>r. url r = u) (scraped_sites (save_all ttl calls s)) =
              [excluded_row ttl (last (filter (\<lambda>c. sc_url c = u) calls)) i]"
  using assms(2)
proof (induction calls rule: rev_induct)
  case Nil
  then show ?case by simp
next
  case (snoc c cs)
  show ?case
  proof (cases "sc_url c = u")
    case True
    from save_scrape_same [OF save_all_distinct [OF assms(1)],
        where c = c and ttl = ttl and cs1 = cs
        and ttl1 = ttl] True
    show ?thesis by (simp add: save_all_snoc)
  next
    case False
    with snoc show ?thesis by (simp add: save_all_snoc save_scrape_other)
  qed
qed

text \<open>
  Claim C8. Start from a cache whose URLs are distinct and run any sequence of
  \<^verbatim>\<open>save_scrape\<close> calls, for any URLs, at least one of them for \<open>u\<close>. Then the cache
  holds exactly one row for \<open>u\<close>; its dealership name, paths, counts, status and error
  message are those of the last call for \<open>u\<close>, and its \<^verbatim>\<open>cache_valid_until\<close> is that
  call's time plus the TTL.
\<close>

theorem save_scrape_upsert:
  assumes "distinct (map url (scraped_sites s))"
    and "filter (\<lambda>c. sc_url c = u) calls \<noteq> []"
  shows "\<exists>r. filter (\<lambda>r. url r = u) (scraped_sites (save_all ttl calls s)) = [r] \<and>
           dealership_name r = sc_dealership_name (last (filter (\<lambda>c. sc_url c = u) calls)) \<and>
           ss_inventory_path r =
             Some (sc_inventory_path (last (filter (\<lambda>c. sc_url c = u) calls))) \<and>
           ss_tools_path r = Some (sc_tools_path (last (filter (\<lambda>c. sc_url c = u) calls))) \<and>
           vehicle_count r = sc_vehicle_count (last (filter (\<lambda>c. sc_url c = u) calls)) \<and>
           tools_count r = sc_tools_count (last (filter (\<lambda>c. sc_url c = u) calls)) \<and>
           ss_status r = sc_status (last (filter (\<lambda>c. sc_url c = u) calls)) \<and>
           ss_error_message r = sc_error_message (last (filter (\<lambda>c. sc_url c = u) calls)) \<and>
           cache_valid_until r =
             sc_py_now (last (filter (\<lambda>c. sc_url c = u) calls)) + timedelta_days ttl"
proof -
  from save_all_last [OF assms, of ttl] obtain i
    where "filter (\<lambda>r. url r = u) (scraped_sites (save_all ttl calls s)) =
             [excluded_row ttl (last (filter (\<lambda>c. sc_url c = u) calls)) i]" by blast
  then show ?thesis by (simp add: excluded_row_def)
qed

text \<open>Two saves for one URL into the empty cache leave one row, with the second save's values.\<close>

theorem save_scrape_upsert_witness:
  "distinct (map url (scraped_sites empty_store)) \<and>
   filter (\<lambda>c. sc_url c = ''http://a.example'') [save_a, save_a_again] \<noteq> [] \<and>
   map dealership_name (scraped_sites (save_all 7 [save_a, save_a_again] empty_store)) =
     [''A Motors''] \<and>
   map cache_valid_until (scraped_sites (save_all 7 [save_a, save_a_again] empty_store)) =
     [5000000 + timedelta_days 7]"
  using save_scrape_upsert [of empty_store "''http://a.example''" "[save_a, save_a_again]" 7]
  by (simp add: empty_store_def save_a_def save_a_again_def save_scrape_def excluded_row_def)

text \<open>
  Claim C1. A dry run should delete nothing. On the database that holds the completed job
  \<^verbatim>\<open>job_1\<close>, created ten days ago, with one competitor row, and a disk that holds its
  folder, \<^verbatim>\<open>run_cleanup(retention_days=7, dry_run=True)\<close> leaves the folder in place but
  returns a database without the job row and without its competitor row:
  \<^verbatim>\<open>cleanup_old_jobs\<close> has run its \<^verbatim>\<open>DELETE\<close>.
\<close>

theorem run_cleanup_dry_run_deletes_rows:
  "map job_id (jobs store_old_job) = [''job_1''] \<and>
   map jc_job_id (job_competitors store_old_job) = [''job_1''] \<and>
   jobs (fst (snd (run_cleanup never (timedelta_days 10) (timedelta_days 10) 7 True False False
                     (store_old_job, [''data/jobs/job_1''])))) = [] \<and>
   job_competitors
     (fst (snd (run_cleanup never (timedelta_days 10) (timedelta_days 10) 7 True False False
                  (store_old_job, [''data/jobs/job_1''])))) = [] \<and>
   snd (snd (run_cleanup never (timedelta_days 10) (timedelta_days 10) 7 True False False
               (store_old_job, [''data/jobs/job_1'']))) = [''data/jobs/job_1'']"
  by (simp add: run_cleanup_def cleanup_old_jobs_def old_job_def store_old_job_def example_defs
      update_status_def update_status_row_def timedelta_days_def Let_def)

subsection \<open>Further properties of the store and the cleanup script\<close>

lemma cleanup_data_folders_dry_run:
  "cleanup_data_folders rm_fails old_jobs True n fs = (n, fs)"
proof (induction old_jobs)
  case Nil
  then show ?case by simp
next
  case (Cons a old_jobs)
  obtain jid folder where a: "a = (jid, folder)" by (cases a)
  show ?case
  proof (cases folder)
    case None
    with a Cons show ?thesis by simp
  next
    case (Some d)
    with a Cons show ?thesis by simp
  qed
qed

lemma scraped_sites_cleanup_old_jobs:
  "scraped_sites (snd (cleanup_old_jobs py_now days s)) = scraped_sites s"
  by (simp add: cleanup_old_jobs_def Let_def)

text \<open>
  What a dry run does spare: the disk and the cache table are as they were, and the jobs it
  reports are those a live run with the same arguments reports.
\<close>

theorem run_cleanup_dry_run_spares_disk_and_cache:
  "snd (snd (run_cleanup rm_fails py_now db_now days True cache_only jobs_only (s, fs))) = fs \<and>
   scraped_sites
     (fst (snd (run_cleanup rm_fails py_now db_now days True cache_only jobs_only (s, fs)))) =
     scraped_sites s \<and>
   reported_jobs
     (fst (run_cleanup rm_fails py_now db_now days True cache_only jobs_only (s, fs))) =
   reported_jobs
     (fst (run_cleanup rm_fails py_now db_now days False cache_only jobs_only (s, fs)))"
  by (simp add: run_cleanup_def Let_def cleanup_data_folders_dry_run
      scraped_sites_cleanup_old_jobs)

text \<open>
  \<^verbatim>\<open>cleanup_old_jobs\<close> removes exactly the jobs that are \<^verbatim>\<open>completed\<close> or \<^verbatim>\<open>failed\<close>
  and were created before \<^verbatim>\<open>now - retention_days\<close>, and returns \<^verbatim>\<open>job_id\<close> and
  \<^verbatim>\<open>data_folder\<close> of each; a \<^verbatim>\<open>queued\<close> or \<^verbatim>\<open>processing\<close> job of any age stays.
\<close>

theorem cleanup_old_jobs_selection:
  "jobs (snd (cleanup_old_jobs py_now days s)) =
     filter (\<lambda>j. \<not> (created_at j < py_now - timedelta_days days \<and>
                      (status j = ''completed'' \<or> status j = ''failed''))) (jobs s) \<and>
   snd (fst (cleanup_old_jobs py_now days s)) =
     map (\<lambda>j. (job_id j, data_folder j))
       (filter (\<lambda>j. created_at j < py_now - timedelta_days days \<and>
                     (status j = ''completed'' \<or> status j = ''failed'')) (jobs s))"
proof -
  let ?old = "\<lambda>j. created_at j < py_now - timedelta_days days \<and>
                     (status j = ''completed'' \<or> status j = ''failed'')"
  have o: "old_job (py_now - timedelta_days days) = ?old" by (rule ext) (simp add: old_job_def)
  show ?thesis
  proof (cases "filter ?old (jobs s) = []")
    case True
    then have "filter (\<lambda>j. \<not> ?old j) (jobs s) = jobs s"
      by (simp add: filter_empty_conv filter_id_conv)
    with True show ?thesis by (simp add: cleanup_old_jobs_def Let_def o)
  next
    case False
    then show ?thesis by (simp add: cleanup_old_jobs_def Let_def o)
  qed
qed

lemma insert_competitors_jobs: "jobs (insert_competitors jid urls s) = jobs s"
  by (induction jid urls s rule: insert_competitors.induct) auto

lemma insert_competitors_rows:
  "map (\<lambda>c. (jc_job_id c, competitor_url c, competitor_name c, jc_status c))
     (job_competitors (insert_competitors jid urls s)) =
   map (\<lambda>c. (jc_job_id c, competitor_url c, competitor_name c, jc_status c)) (job_competitors s) @
   map (\<lambda>(u, n). (jid, u, n, ''pending'')) urls"
  by (induction jid urls s rule: insert_competitors.induct) auto

lemma find_append_new:
  "\<forall>x \<in> set xs. \<not> P x \<Longrightarrow> P y \<Longrightarrow> find P (xs @ [y]) = Some y"
  by (induction xs) auto

text \<open>
  \<^verbatim>\<open>create_job\<close> stores the job as \<^verbatim>\<open>queued\<close> with
  \<^verbatim>\<open>total_steps = 2 + len(competitor_urls) + 2\<close> and no step completed, and appends one
  \<^verbatim>\<open>pending\<close> row per competitor, in list order.
\<close>

theorem create_job_row:
  assumes "create_job now jid cname cemail urls folder meta s = Some s'"
  shows "\<exists>j. lookup_job s' jid = Some j \<and> total_steps j = 2 + int (length urls) + 2 \<and>
           completed_steps j = 0 \<and> status j = ''queued'' \<and>
           map (\<lambda>c. (jc_job_id c, competitor_url c, competitor_name c, jc_status c))
             (job_competitors s') =
           map (\<lambda>c. (jc_job_id c, competitor_url c, competitor_name c, jc_status c))
             (job_competitors s) @
           map (\<lambda>(u, n). (jid, u, n, ''pending'')) urls"
proof -
  from assms have new: "jid \<notin> set (map job_id (jobs s))"
    by (auto simp: create_job_def split: if_splits)
  then have "\<forall>x \<in> set (jobs s). job_id x \<noteq> jid" by auto
  with assms new show ?thesis
    by (auto simp: create_job_def lookup_job_def insert_competitors_jobs insert_competitors_rows
        find_append_new split: if_splits)
qed

text \<open>The job \<^verbatim>\<open>job_3\<close> of the examples is made so: seven steps, three pending competitors.\<close>

theorem create_job_row_witness:
  "create_job 0 ''job_3'' ''Client'' ''client@example.com''
     [(''http://a.example'', ''A''), (''http://b.example'', ''B''),
      (''http://c.example'', ''C'')] (Some ''data/jobs/job_3'')
     [(''inventory_json'', JStr ''[]''), (''tools_json'', JStr ''[]'')] empty_store =
     Some store_three \<and>
   map total_steps (jobs store_three) = [7] \<and>
   map jc_status (job_competitors store_three) = [''pending'', ''pending'', ''pending'']"
proof -
  have 1: "create_job 0 ''job_3'' ''Client'' ''client@example.com''
     [(''http://a.example'', ''A''), (''http://b.example'', ''B''),
      (''http://c.example'', ''C'')] (Some ''data/jobs/job_3'')
     [(''inventory_json'', JStr ''[]''), (''tools_json'', JStr ''[]'')] empty_store =
     Some store_three" by code_simp
  have g: ?thesis by code_simp
  from create_job_row [OF 1] show ?thesis using g by -
qed

section \<open>Properties of \<^verbatim>\<open>process_job\<close>\<close>

subsection \<open>What each operation leaves unchanged\<close>

lemma lookup_job_jobs_cong: "jobs s = jobs s' \<Longrightarrow> lookup_job s jid = lookup_job s' jid"
  by (simp add: lookup_job_def)

lemma jobs_update_competitor_status [simp]:
  "jobs (update_competitor_status now jid u st ipath tpath err s) = jobs s"
  by (simp add: update_competitor_status_def)

lemma jobs_save_scrape [simp]: "jobs (save_scrape ttl c s) = jobs s"
  by (simp add: save_scrape_def)

lemma job_competitors_save_scrape [simp]:
  "job_competitors (save_scrape ttl c s) = job_competitors s"
  by (simp add: save_scrape_def)

lemma job_competitors_update_status [simp]:
  "job_competitors (update_status now jid st step err s) = job_competitors s"
  by (simp add: update_status_def)

lemma job_competitors_update_progress [simp]:
  "job_competitors (update_progress now jid n s) = job_competitors s"
  by (simp add: update_progress_def)

lemma job_update_status_simps [simp]:
  "db (job_update_status e jid st step err w) =
     update_status (db_clock e (tick w)) jid st step err (db w)"
  "tick (job_update_status e jid st step err w) = tick w + 1"
  "trace (job_update_status e jid st step err w) =
     trace w @ [Observed (lookup_job (update_status (db_clock e (tick w)) jid st step err (db w)) jid)]"
  by (simp_all add: job_update_status_def Let_def)

lemma job_update_progress_simps [simp]:
  "db (job_update_progress e jid n w) = update_progress (db_clock e (tick w)) jid n (db w)"
  "tick (job_update_progress e jid n w) = tick w + 1"
  "trace (job_update_progress e jid n w) =
     trace w @ [Observed (lookup_job (update_progress (db_clock e (tick w)) jid n (db w)) jid)]"
  by (simp_all add: job_update_progress_def Let_def)

lemma job_update_competitor_simps [simp]:
  "db (job_update_competitor e jid u st ipath tpath err w) =
     update_competitor_status (db_clock e (tick w)) jid u st ipath tpath err (db w)"
  "tick (job_update_competitor e jid u st ipath tpath err w) = tick w + 1"
  "trace (job_update_competitor e jid u st ipath tpath err w) = trace w"
  by (simp_all add: job_update_competitor_def)

lemma cache_save_simps [simp]:
  "jobs (db (cache_save e cfg u name ipath tpath veh tools w)) = jobs (db w)"
  "job_competitors (db (cache_save e cfg u name ipath tpath veh tools w)) = job_competitors (db w)"
  "tick (cache_save e cfg u name ipath tpath veh tools w) = tick w + 1"
  "trace (cache_save e cfg u name ipath tpath veh tools w) = trace w"
  by (simp_all add: cache_save_def)

lemma lookup_job_update_competitor [simp]:
  "lookup_job (update_competitor_status now jid' u st ipath tpath err s) jid = lookup_job s jid"
  by (simp add: lookup_job_def)

lemma lookup_job_cache_save [simp]:
  "lookup_job (db (cache_save e cfg u name ipath tpath veh tools w)) jid = lookup_job (db w) jid"
  by (simp add: lookup_job_def)

lemma scrape_attempts_frame:
  "lookup_job (db (snd (scrape_attempts e cfg jid i c a n w))) jid' = lookup_job (db w) jid' \<and>
   (\<exists>as. trace (snd (scrape_attempts e cfg jid i c a n w)) = trace w @ map (ScraperRun i) as)"
proof (induction n arbitrary: a w)
  case 0
  then show ?case by simp
next
  case (Suc n)
  show ?case
  proof (cases "run_scraper e i a")
    case (Inl x)
    from Suc [of "a + 1" "w\<lparr>trace := trace w @ [ScraperRun i a]\<rparr>"]
    obtain as where
      "lookup_job (db (snd (scrape_attempts e cfg jid i c (a + 1) n (w\<lparr>trace := trace w @ [ScraperRun i a]\<rparr>)))) jid' = lookup_job (db w) jid'"
      "trace (snd (scrape_attempts e cfg jid i c (a + 1) n (w\<lparr>trace := trace w @ [ScraperRun i a]\<rparr>))) = trace w @ map (ScraperRun i) (a # as)"
      by auto
    with Inl show ?thesis by (simp only: scrape_attempts.simps sum.case) blast
  next
    case (Inr r)
    obtain ipath tpath veh tools where r: "r = (ipath, tpath, veh, tools)" by (cases r) auto
    have "\<exists>as. [ScraperRun i a] = map (ScraperRun i) as"
      by (rule exI [of _ "[a]"]) simp
    with Inr r show ?thesis by simp
  qed
qed

lemma mark_aborted_frame:
  "lookup_job (db (mark_aborted e jid cs w)) jid' = lookup_job (db w) jid' \<and>
   trace (mark_aborted e jid cs w) = trace w"
  by (induction cs arbitrary: w) auto


lemma trace_ok_append_calls:
  "trace_ok evs \<Longrightarrow> \<forall>ev \<in> set evs'. is_call ev \<Longrightarrow> trace_ok (evs @ evs')"
  unfolding trace_ok_def by auto

lemma in_progress_frame:
  assumes "in_progress N jid cs w"
    and "lookup_job (db w') jid = lookup_job (db w) jid"
    and "trace w' = trace w @ evs" and "\<forall>ev \<in> set evs. is_call ev"
  shows "in_progress N jid cs w'"
  using assms unfolding in_progress_def by (simp add: trace_ok_append_calls)

lemma in_progress_status_first:
  assumes "lookup_job (db w) jid = Some j" and "completed_steps j < total_steps j"
    and "trace_ok (trace w)" and "st \<noteq> ''completed''"
  shows "in_progress (total_steps j) jid (completed_steps j) (job_update_status e jid st step err w)"
  using assms unfolding in_progress_def
  by (simp add: update_status_lookup update_status_row_def trace_ok_def steps_ok_def)

lemma in_progress_status:
  assumes "in_progress N jid cs w" and "st \<noteq> ''completed''"
  shows "in_progress N jid cs (job_update_status e jid st step err w)"
  using assms in_progress_status_first unfolding in_progress_def by blast

lemma in_progress_progress:
  assumes "in_progress N jid cs w" and "n < N"
  shows "in_progress N jid n (job_update_progress e jid n w)"
  using assms unfolding in_progress_def
  by (auto simp: update_progress_lookup update_progress_row_def trace_ok_def steps_ok_def)

lemma in_progress_competitor:
  "in_progress N jid cs w \<Longrightarrow>
   in_progress N jid cs (job_update_competitor e jid u st ipath tpath err w)"
  by (rule in_progress_frame [where evs = "[]"]) simp_all

lemma in_progress_tick: "in_progress N jid cs w \<Longrightarrow> in_progress N jid cs (w\<lparr>tick := t\<rparr>)"
  by (rule in_progress_frame [where evs = "[]"]) simp_all

lemma in_progress_scrape_attempts:
  assumes "in_progress N jid cs w"
  shows "in_progress N jid cs (snd (scrape_attempts e cfg jid i c a n w))"
proof -
  from scrape_attempts_frame [of e cfg jid i c a n w jid] obtain as where
    "lookup_job (db (snd (scrape_attempts e cfg jid i c a n w))) jid = lookup_job (db w) jid"
    "trace (snd (scrape_attempts e cfg jid i c a n w)) = trace w @ map (ScraperRun i) as"
    by blast
  with assms show ?thesis by (rule in_progress_frame) auto
qed

lemma in_progress_mark_aborted:
  "in_progress N jid cs w \<Longrightarrow> in_progress N jid cs (mark_aborted e jid cs' w)"
  by (rule in_progress_frame [where evs = "[]"]) (simp_all add: mark_aborted_frame)

lemma in_progress_resolve:
  assumes "in_progress N jid cs w" and "cs + 1 < N"
  shows "case resolve_competitor e cfg jid comps i c cs failed data w of
           Continue cs' failed' data' w' \<Rightarrow> cs' = cs + 1 \<and> in_progress N jid cs' w'
         | Abort w' \<Rightarrow> in_progress N jid cs w'
         | Raise x w' \<Rightarrow> in_progress N jid cs w'"
proof -
  let ?w1 = "w\<lparr>tick := tick w + 1\<rparr>"
  have w1: "in_progress N jid cs ?w1" using assms(1) by (rule in_progress_tick)
  show ?thesis
  proof (cases "cache_lookup e i (competitor_url c) w")
    case (CacheRaise x)
    with w1 show ?thesis by (simp add: resolve_competitor_def)
  next
    case (CacheHit p q)
    with w1 assms(2) show ?thesis
      by (auto simp: resolve_competitor_def Let_def
          intro!: in_progress_progress in_progress_competitor)
  next
    case CacheMiss
    obtain r w2 where sa:
      "scrape_attempts e cfg jid i c 1 (nat (scraper_max_retries cfg)) ?w1 = (r, w2)"
      by (cases "scrape_attempts e cfg jid i c 1 (nat (scraper_max_retries cfg)) ?w1")
    from in_progress_scrape_attempts [OF w1, of e cfg i c 1 "nat (scraper_max_retries cfg)"] sa
    have w2: "in_progress N jid cs w2" by simp
    show ?thesis
    proof (cases r)
      case None
      with CacheMiss sa w2 assms(2) show ?thesis
        by (auto simp: resolve_competitor_def Let_def
            intro!: in_progress_progress in_progress_competitor in_progress_status
              in_progress_mark_aborted)
    next
      case (Some paths)
      obtain ipath tpath where "paths = (ipath, tpath)" by (cases paths)
      with Some CacheMiss sa w2 assms(2) show ?thesis
        by (auto simp: resolve_competitor_def Let_def intro!: in_progress_progress)
    qed
  qed
qed

lemma in_progress_loop:
  assumes "in_progress N jid cs w" and "cs + int (length rest) < N"
  shows "case competitor_loop e cfg jid comps i rest cs failed data w of
           LoopDone cs' data' w' \<Rightarrow> cs' = cs + int (length rest) \<and> in_progress N jid cs' w'
         | LoopAborted w' \<Rightarrow> \<exists>cs'. in_progress N jid cs' w'
         | LoopRaised x w' \<Rightarrow> \<exists>cs'. in_progress N jid cs' w'"
  using assms
proof (induction rest arbitrary: i cs failed data w)
  case Nil
  then show ?case by simp
next
  case (Cons c rest)
  from Cons.prems have lt: "cs + 1 < N" by simp
  note r = in_progress_resolve [OF Cons.prems(1) lt, of e cfg comps i c failed data]
  show ?case
  proof (cases "resolve_competitor e cfg jid comps i c cs failed data w")
    case (Continue cs' failed' data' w')
    with r have cs': "cs' = cs + 1" and ip: "in_progress N jid cs' w'" by auto
    from Cons.prems(2) cs' have "cs' + int (length rest) < N" by simp
    from Cons.IH [OF ip this, of "i + 1" failed' data'] Continue cs'
    show ?thesis by (simp split: loop_result.splits)
  next
    case (Abort w')
    with r show ?thesis by auto
  next
    case (Raise x w')
    with r show ?thesis by auto
  qed
qed

subsection \<open>The step counter\<close>

lemma email_attempts_frame:
  "db (snd (email_attempts e a n w)) = db w \<and>
   (\<exists>as. trace (snd (email_attempts e a n w)) = trace w @ map EmailSend as)"
proof (induction n arbitrary: a w)
  case 0
  then show ?case by simp
next
  case (Suc n)
  show ?case
  proof (cases "send_email e a")
    case None
    have "\<exists>as. [EmailSend a] = map EmailSend as" by (rule exI [of _ "[a]"]) simp
    with None show ?thesis by simp
  next
    case (Some x)
    from Suc [of "a + 1" "w\<lparr>trace := trace w @ [EmailSend a]\<rparr>"]
    obtain as where
      "db (snd (email_attempts e (a + 1) n (w\<lparr>trace := trace w @ [EmailSend a]\<rparr>))) = db w"
      "trace (snd (email_attempts e (a + 1) n (w\<lparr>trace := trace w @ [EmailSend a]\<rparr>))) =
         trace w @ map EmailSend (a # as)"
      by auto
    with Some show ?thesis by (simp only: email_attempts.simps option.case) blast
  qed
qed

lemma in_progress_email_attempts:
  assumes "in_progress N jid cs w"
  shows "in_progress N jid cs (snd (email_attempts e a n w))"
proof -
  from email_attempts_frame [of e a n w] obtain as where
    "db (snd (email_attempts e a n w)) = db w"
    "trace (snd (email_attempts e a n w)) = trace w @ map EmailSend as"
    by blast
  with assms show ?thesis by (intro in_progress_frame [OF assms, where evs = "map EmailSend as"]) auto
qed

lemma trace_ok_fail_job:
  "in_progress N jid cs w \<Longrightarrow> trace_ok (trace (snd (fail_job e jid msg w)))"
  using in_progress_status [of N jid cs w "''failed''" e None "Some msg"]
  by (simp add: fail_job_def in_progress_def)

lemma trace_ok_finalize:
  assumes "in_progress N jid cs w" and "cs + 1 = N"
  shows "trace_ok (trace (snd (finalize_phase e jid cs w)))"
  using assms unfolding in_progress_def finalize_phase_def
  by (auto simp: update_status_lookup update_progress_lookup update_status_row_def
      update_progress_row_def trace_ok_def steps_ok_def)

lemma trace_ok_email_phase:
  assumes "in_progress N jid cs w" and "cs + 2 = N"
  shows "trace_ok (trace (snd (email_phase e cfg jid cs w)))"
proof -
  let ?w1 = "job_update_status e jid ''processing'' (Some ''Sending email'') None w"
  obtain ok w2 where ea: "email_attempts e 1 (nat (email_max_retries cfg)) ?w1 = (ok, w2)"
    by (cases "email_attempts e 1 (nat (email_max_retries cfg)) ?w1")
  have "in_progress N jid cs ?w1" using assms(1) by (rule in_progress_status) simp
  from in_progress_email_attempts [OF this, of e 1 "nat (email_max_retries cfg)"] ea
  have w2: "in_progress N jid cs w2" by simp
  show ?thesis
  proof (cases ok)
    case True
    from w2 assms(2) have "in_progress N jid (cs + 1) (job_update_progress e jid (cs + 1) w2)"
      by (intro in_progress_progress) auto
    from trace_ok_finalize [OF this] assms(2) True ea show ?thesis
      by (simp add: email_phase_def)
  next
    case False
    with ea trace_ok_fail_job [OF w2] show ?thesis by (simp add: email_phase_def)
  qed
qed

lemma trace_ok_analysis_phase:
  assumes "in_progress N jid cs w" and "cs + 3 = N"
  shows "trace_ok (trace (snd (analysis_phase e cfg jid cs data w)))"
proof -
  let ?w1 = "job_update_status e jid ''processing'' (Some ''Running analysis'') None w"
  let ?w2 = "?w1\<lparr>trace := trace ?w1 @ [AnalysisRun]\<rparr>"
  have "in_progress N jid cs ?w1" using assms(1) by (rule in_progress_status) simp
  then have w2: "in_progress N jid cs ?w2"
    by (rule in_progress_frame [where evs = "[AnalysisRun]"]) simp_all
  show ?thesis
  proof (cases "run_analysis e (map (\<lambda>(name, u, ipath, tpath). (ipath, tpath)) data)")
    case None
    from w2 assms(2) have "in_progress N jid (cs + 1) (job_update_progress e jid (cs + 1) ?w2)"
      by (intro in_progress_progress) auto
    from trace_ok_email_phase [OF this] assms(2) None show ?thesis
      by (simp add: analysis_phase_def Let_def)
  next
    case (Some x)
    with trace_ok_fail_job [OF w2] show ?thesis by (simp add: analysis_phase_def Let_def)
  qed
qed

lemma trace_ok_after_loop:
  assumes "case r of
             LoopDone cs' data' w' \<Rightarrow> cs' + 3 = N \<and> in_progress N jid cs' w'
           | LoopAborted w' \<Rightarrow> \<exists>cs'. in_progress N jid cs' w'
           | LoopRaised x w' \<Rightarrow> \<exists>cs'. in_progress N jid cs' w'"
  shows "trace_ok (trace (snd (after_loop e cfg jid r)))"
proof (cases r)
  case (LoopDone cs' data' w')
  with assms trace_ok_fail_job trace_ok_analysis_phase show ?thesis by auto
next
  case (LoopAborted w')
  with assms show ?thesis by (auto simp: in_progress_def)
next
  case (LoopRaised x w')
  with assms trace_ok_fail_job show ?thesis by auto
qed

text \<open>
  Claim C4, as the code has it. Take a job as \<^verbatim>\<open>create_job\<close> leaves it
  (\<^verbatim>\<open>total_steps\<close> is the number of its competitor rows plus 4, \<^verbatim>\<open>completed_steps\<close> is
  0) and run \<^verbatim>\<open>process_job\<close>, whatever the collaborators do. At every observation of the
  job row (after each \<^verbatim>\<open>update_status\<close> and \<^verbatim>\<open>update_progress\<close>),
  \<^verbatim>\<open>completed_steps \<le> total_steps\<close>; \<^verbatim>\<open>completed_steps = total_steps\<close> only if the
  status is \<^verbatim>\<open>completed\<close>; and the status is \<^verbatim>\<open>completed\<close> only if at most the last
  step is missing.
\<close>

theorem process_job_steps:
  assumes "lookup_job (db w) jid = Some j0"
    and "total_steps j0 = int (length (job_competitor_rows (db w) jid)) + 4"
    and "completed_steps j0 = 0"
    and "trace w = []"
  shows "\<forall>j. Observed (Some j) \<in> set (trace (snd (process_job e cfg jid w))) \<longrightarrow>
           completed_steps j \<le> total_steps j \<and>
           (completed_steps j = total_steps j \<longrightarrow> status j = ''completed'') \<and>
           (status j = ''completed'' \<longrightarrow> total_steps j \<le> completed_steps j + 1)"
proof -
  let ?N = "total_steps j0"
  let ?comps = "job_competitor_rows (db w) jid"
  let ?w0 = "w\<lparr>tick := tick w + 1\<rparr>"
  let ?w1 = "job_update_status e jid ''processing'' (Some ''Starting'') None ?w0"
  let ?w2 = "job_update_status e jid ''processing'' (Some ''Saving client data'') None ?w1"
  let ?w3 = "job_update_progress e jid 1 ?w2"
  have t0: "trace_ok (trace ?w0)" using assms(4) by (simp add: trace_ok_def)
  have lt: "completed_steps j0 < ?N" using assms(2,3) by simp
  have "lookup_job (db ?w0) jid = Some j0" using assms(1) by simp
  from in_progress_status_first [OF this lt t0, of "''processing''" e "Some ''Starting''" None]
  have w1: "in_progress ?N jid 0 ?w1" using assms(3) by simp
  then have w2: "in_progress ?N jid 0 ?w2" by (rule in_progress_status) simp
  have w3: "in_progress ?N jid 1 ?w3" using w2 assms(2) by (intro in_progress_progress) auto
  have "1 + int (length ?comps) < ?N" using assms(2) by simp
  from in_progress_loop [OF w3 this, of e cfg ?comps 1 0 "[]"] assms(2)
  have "trace_ok (trace (snd (after_loop e cfg jid
          (competitor_loop e cfg jid ?comps 1 ?comps 1 0 [] ?w3))))"
    by (intro trace_ok_after_loop [where N = ?N]) (auto split: loop_result.splits)
  with trace_ok_fail_job [OF w1] trace_ok_fail_job [OF w2] assms(1)
  have "trace_ok (trace (snd (process_job e cfg jid w)))"
    by (simp add: process_job_def Let_def split: option.splits)
  then show ?thesis unfolding trace_ok_def steps_ok_def by blast
qed

theorem process_job_steps_witness:
  "lookup_job (db (start store_one_job)) ''job_1'' = Some (hd (jobs store_one_job)) \<and>
   total_steps (hd (jobs store_one_job)) =
     int (length (job_competitor_rows (db (start store_one_job)) ''job_1'')) + 4 \<and>
   completed_steps (hd (jobs store_one_job)) = 0 \<and> trace (start store_one_job) = [] \<and>
   list_all (\<lambda>ev. case observed_steps ev of None \<Rightarrow> True | Some (st, c, t) \<Rightarrow> c \<le> t)
     (trace (snd (process_job env_ok default_config ''job_1'' (start store_one_job))))"
proof -
  have 1: "lookup_job (db (start store_one_job)) ''job_1'' = Some (hd (jobs store_one_job))"
    by code_simp
  have 2: "total_steps (hd (jobs store_one_job)) =
     int (length (job_competitor_rows (db (start store_one_job)) ''job_1'')) + 4"
    by code_simp
  have 3: "completed_steps (hd (jobs store_one_job)) = 0" by code_simp
  have 4: "trace (start store_one_job) = []" by code_simp
  have "case observed_steps ev of None \<Rightarrow> True | Some (st, c, t) \<Rightarrow> c \<le> t"
    if "ev \<in> set (trace (snd (process_job env_ok default_config ''job_1'' (start store_one_job))))"
    for ev
    using process_job_steps [OF 1 2 3 4, of env_ok default_config] that
    by (cases ev rule: observed_steps.cases) auto
  with 1 2 3 4 show ?thesis unfolding list_all_iff by blast
qed

text \<open>
  Claim C4 as stated fails in the other direction: the finalize phase sets the status
  \<^verbatim>\<open>completed\<close> before it records the last step, so a run in which everything succeeds
  is observed with status \<^verbatim>\<open>completed\<close> and 4 of 5 steps (\<open>None\<close> stands for a call of
  a collaborator).
\<close>

theorem process_job_completed_before_last_step:
  "map observed_steps
     (trace (snd (process_job env_ok default_config ''job_1'' (start store_one_job)))) =
   [Some (''processing'', 0, 5), Some (''processing'', 0, 5), Some (''processing'', 1, 5),
    None, Some (''processing'', 2, 5), Some (''processing'', 2, 5), None,
    Some (''processing'', 3, 5), Some (''processing'', 3, 5), None,
    Some (''processing'', 4, 5), Some (''completed'', 4, 5), Some (''completed'', 5, 5)]"
  by code_simp

subsection \<open>The competitors\<close>

lemma job_competitor_rows_update_competitor:
  "job_competitor_rows (update_competitor_status now jid u st ipath tpath err s) jid =
     map (\<lambda>c. if competitor_url c = u then update_competitor_row now st ipath tpath err c else c)
         (job_competitor_rows s jid)"
proof -
  have "filter (\<lambda>c. jc_job_id c = jid)
          (map (\<lambda>c. if jc_job_id c = jid \<and> competitor_url c = u
                     then update_competitor_row now st ipath tpath err c else c) xs) =
        map (\<lambda>c. if competitor_url c = u then update_competitor_row now st ipath tpath err c else c)
          (filter (\<lambda>c. jc_job_id c = jid) xs)" for xs
    by (induction xs) (auto simp: update_competitor_row_def)
  then show ?thesis
    by (simp add: job_competitor_rows_def update_competitor_status_def)
qed

lemma job_competitor_rows_cong:
  "job_competitors s = job_competitors s' \<Longrightarrow> job_competitor_rows s jid = job_competitor_rows s' jid"
  by (simp add: job_competitor_rows_def)

lemma job_competitor_rows_update_status [simp]:
  "job_competitor_rows (update_status now jid' st step err s) jid = job_competitor_rows s jid"
  by (simp add: job_competitor_rows_def)

lemma job_competitor_rows_update_progress [simp]:
  "job_competitor_rows (update_progress now jid' n s) jid = job_competitor_rows s jid"
  by (simp add: job_competitor_rows_def)

lemma job_competitor_rows_cache_save [simp]:
  "job_competitor_rows (db (cache_save e cfg u name ipath tpath veh tools w)) jid =
     job_competitor_rows (db w) jid"
  by (simp add: job_competitor_rows_def)

lemma rows_update_cases:
  assumes "r \<in> set (job_competitor_rows (update_competitor_status now jid u st ipath tpath err s) jid)"
  shows "(competitor_url r = u \<and> jc_status r = st \<and> jc_error_message r = err) \<or>
         (competitor_url r \<noteq> u \<and> r \<in> set (job_competitor_rows s jid))"
proof -
  from assms obtain c where c: "c \<in> set (job_competitor_rows s jid)"
    and r: "r = (if competitor_url c = u then update_competitor_row now st ipath tpath err c else c)"
    unfolding job_competitor_rows_update_competitor by auto
  show ?thesis
  proof (cases "competitor_url c = u")
    case True
    with r show ?thesis by (simp add: update_competitor_row_def)
  next
    case False
    with r c show ?thesis by simp
  qed
qed

lemma rows_after_update:
  assumes "r \<in> set (job_competitor_rows (update_competitor_status now jid u st ipath tpath err s) jid)"
    and "competitor_url r = u"
  shows "jc_status r = st \<and> jc_error_message r = err"
  using rows_update_cases [OF assms(1)] assms(2) by blast

lemma rows_other_update:
  assumes "r \<in> set (job_competitor_rows (update_competitor_status now jid u st ipath tpath err s) jid)"
    and "competitor_url r \<noteq> u"
  shows "r \<in> set (job_competitor_rows s jid)"
  using rows_update_cases [OF assms(1)] assms(2) by blast

lemma scrape_attempts_all_fail:
  assumes "\<forall>k. a \<le> k \<and> k < a + n \<longrightarrow> isl (run_scraper e i k)"
  shows "scrape_attempts e cfg jid i c a n w =
           (None, w\<lparr>trace := trace w @ map (ScraperRun i) [a..<a + n]\<rparr>)"
  using assms
proof (induction n arbitrary: a w)
  case 0
  then show ?case by simp
next
  case (Suc n)
  from Suc.prems have "isl (run_scraper e i a)" by simp
  then obtain x where x: "run_scraper e i a = Inl x" by (cases "run_scraper e i a") auto
  from Suc.prems have "\<forall>k. a + 1 \<le> k \<and> k < a + 1 + n \<longrightarrow> isl (run_scraper e i k)" by simp
  from Suc.IH [OF this, of "w\<lparr>trace := trace w @ [ScraperRun i a]\<rparr>"]
  have "scrape_attempts e cfg jid i c (a + 1) n (w\<lparr>trace := trace w @ [ScraperRun i a]\<rparr>) =
          (None, w\<lparr>trace := trace w @ map (ScraperRun i) (a # [a + 1..<a + 1 + n])\<rparr>)"
    by simp
  moreover have "a # [a + 1..<a + 1 + n] = [a..<a + Suc n]"
    by (simp add: upt_conv_Cons)
  ultimately show ?case using x by (simp only: scrape_attempts.simps sum.case)
qed

lemma scrape_attempts_rows:
  "case scrape_attempts e cfg jid i c a n w of
     (Some paths, w') \<Rightarrow>
       (\<forall>r \<in> set (job_competitor_rows (db w') jid).
          competitor_url r = competitor_url c \<longrightarrow> jc_status r = ''completed'')
   | (None, w') \<Rightarrow> job_competitor_rows (db w') jid = job_competitor_rows (db w) jid"
proof (induction n arbitrary: a w)
  case 0
  then show ?case by simp
next
  case (Suc n)
  show ?case
  proof (cases "run_scraper e i a")
    case (Inl x)
    with Suc [where a = "a + 1" and w = "w\<lparr>trace := trace w @ [ScraperRun i a]\<rparr>"]
    show ?thesis by (simp split: prod.splits option.splits)
  next
    case (Inr r)
    obtain ipath tpath veh tools where r: "r = (ipath, tpath, veh, tools)" by (cases r) auto
    with Inr show ?thesis by (auto dest: rows_after_update)
  qed
qed

lemma mark_aborted_rows_cases:
  assumes "r \<in> set (job_competitor_rows (db (mark_aborted e jid cs w)) jid)"
  shows "(competitor_url r \<in> competitor_url ` set cs \<and> jc_status r = ''aborted'' \<and>
          jc_error_message r = Some ''Job aborted due to multiple failures'') \<or>
         (competitor_url r \<notin> competitor_url ` set cs \<and>
          r \<in> set (job_competitor_rows (db w) jid))"
  using assms
proof (induction cs arbitrary: w)
  case Nil
  then show ?case by simp
next
  case (Cons c cs)
  let ?w = "job_update_competitor e jid (competitor_url c) ''aborted'' None None
              (Some ''Job aborted due to multiple failures'') w"
  from Cons.prems have "r \<in> set (job_competitor_rows (db (mark_aborted e jid cs ?w)) jid)"
    by simp
  from Cons.IH [OF this] show ?case
  proof
    assume "competitor_url r \<in> competitor_url ` set cs \<and> jc_status r = ''aborted'' \<and>
          jc_error_message r = Some ''Job aborted due to multiple failures''"
    then show ?thesis by simp
  next
    assume a: "competitor_url r \<notin> competitor_url ` set cs \<and>
          r \<in> set (job_competitor_rows (db ?w) jid)"
    then have "r \<in> set (job_competitor_rows
        (update_competitor_status (db_clock e (tick w)) jid (competitor_url c) ''aborted'' None None
              (Some ''Job aborted due to multiple failures'') (db w)) jid)" by simp
    from rows_update_cases [OF this] a show ?thesis by auto
  qed
qed

lemma filter_is_call_scraper [simp]: "filter is_call (map (ScraperRun i) as) = map (ScraperRun i) as"
  by (induction as) auto

lemma filter_is_call_email [simp]: "filter is_call (map EmailSend as) = map EmailSend as"
  by (induction as) auto

lemma resolve_competitor_abort:
  assumes "cache_lookup e i (competitor_url c) w = CacheMiss"
    and "scrape_attempts e cfg jid i c 1 (nat (scraper_max_retries cfg))
           (w\<lparr>tick := tick w + 1\<rparr>) = (None, w2)"
    and "2 \<le> failed + 1"
  shows "resolve_competitor e cfg jid comps i c completed failed data w =
           Abort (job_update_status e jid ''failed'' None
                    (Some (''Aborting: '' @ str_nat (failed + 1) @
                           '' competitors failed (threshold: 2)''))
                    (mark_aborted e jid (drop i comps)
                       (job_update_competitor e jid (competitor_url c) ''failed'' None None
                          (Some (''Scraping failed after '' @
                                 str_int (scraper_max_retries cfg) @ '' retries'')) w2)))"
  using assms by (simp add: resolve_competitor_def Let_def)

lemma urls_update_competitor:
  "map competitor_url (job_competitor_rows (update_competitor_status now jid u st ipath tpath err s) jid) =
   map competitor_url (job_competitor_rows s jid)"
  unfolding job_competitor_rows_update_competitor
  by (induction "job_competitor_rows s jid") (auto simp: update_competitor_row_def comp_def)

lemma urls_mark_aborted:
  "map competitor_url (job_competitor_rows (db (mark_aborted e jid cs w)) jid) =
   map competitor_url (job_competitor_rows (db w) jid)"
  by (induction cs arbitrary: w) (auto simp: urls_update_competitor)

text \<open>The scraper attempts on a competitor: they all fail, or one of them succeeds.\<close>

lemma all_attempts_fail_iff:
  "all_attempts_fail e cfg i \<longleftrightarrow>
     (\<forall>k. 1 \<le> k \<and> k < 1 + nat (scraper_max_retries cfg) \<longrightarrow> isl (run_scraper e i k))"
  by (auto simp: all_attempts_fail_def list_all_iff)

lemma scrape_attempts_success:
  assumes "\<not> (\<forall>k. a \<le> k \<and> k < a + n \<longrightarrow> isl (run_scraper e i k))"
  shows "\<exists>paths w2. scrape_attempts e cfg jid i c a n w = (Some paths, w2)"
  using assms
proof (induction n arbitrary: a w)
  case 0
  then show ?case by auto
next
  case (Suc n)
  show ?case
  proof (cases "run_scraper e i a")
    case (Inr r)
    obtain ipath tpath veh tools where "r = (ipath, tpath, veh, tools)" by (cases r) auto
    with Inr show ?thesis by simp
  next
    case (Inl x)
    from Suc.prems obtain k where k: "a \<le> k" "k < a + Suc n" "\<not> isl (run_scraper e i k)"
      by blast
    with Inl have "k \<noteq> a" by auto
    with k have "\<not> (\<forall>k. a + 1 \<le> k \<and> k < a + 1 + n \<longrightarrow> isl (run_scraper e i k))"
      by (intro notI) (auto dest!: spec [of _ k])
    from Suc.IH [OF this, of "w\<lparr>trace := trace w @ [ScraperRun i a]\<rparr>"] Inl
    show ?thesis by simp
  qed
qed

text \<open>With distinct URLs, an update by URL changes one position of the list of rows.\<close>

lemma rows_update_nth:
  assumes "distinct urls" and "map competitor_url (job_competitor_rows s jid) = urls"
    and "k < length urls"
  shows "job_competitor_rows (update_competitor_status now jid (urls ! k) st ipath tpath err s) jid =
         (job_competitor_rows s jid)
           [k := update_competitor_row now st ipath tpath err (job_competitor_rows s jid ! k)]"
proof -
  let ?rows = "job_competitor_rows s jid"
  from assms(2) have len: "length ?rows = length urls" by (metis length_map)
  have url: "competitor_url (?rows ! p) = urls ! p" if "p < length urls" for p
    using that assms(2) len by (metis nth_map)
  show ?thesis
    unfolding job_competitor_rows_update_competitor
  proof (rule nth_equalityI)
    show "length (map (\<lambda>c. if competitor_url c = urls ! k
              then update_competitor_row now st ipath tpath err c else c) ?rows) =
          length (?rows[k := update_competitor_row now st ipath tpath err (?rows ! k)])"
      by simp
  next
    fix p
    assume "p < length (map (\<lambda>c. if competitor_url c = urls ! k
              then update_competitor_row now st ipath tpath err c else c) ?rows)"
    then have p: "p < length urls" using len by simp
    have "urls ! p = urls ! k \<longleftrightarrow> p = k"
      using assms(1,3) p by (simp add: nth_eq_iff_index_eq)
    with p len url [OF p]
    show "map (\<lambda>c. if competitor_url c = urls ! k
              then update_competitor_row now st ipath tpath err c else c) ?rows ! p =
          ?rows[k := update_competitor_row now st ipath tpath err (?rows ! k)] ! p"
      by (auto simp: nth_list_update)
  qed
qed

lemma statuses_update_nth:
  assumes "distinct urls" and "map competitor_url (job_competitor_rows s jid) = urls"
    and "k < length urls"
  shows "statuses (update_competitor_status now jid (urls ! k) st ipath tpath err s) jid =
           (statuses s jid)[k := st]"
    and "reasons (update_competitor_status now jid (urls ! k) st ipath tpath err s) jid =
           (reasons s jid)[k := err]"
  unfolding statuses_def reasons_def rows_update_nth [OF assms]
  by (simp_all add: map_update update_competitor_row_def)

lemma statuses_frame [simp]:
  "statuses (update_status now jid' st step err s) jid = statuses s jid"
  "statuses (update_progress now jid' n s) jid = statuses s jid"
  "statuses (db (cache_save e cfg u name ipath tpath veh tools w)) jid = statuses (db w) jid"
  "reasons (update_status now jid' st step err s) jid = reasons s jid"
  "reasons (update_progress now jid' n s) jid = reasons s jid"
  "reasons (db (cache_save e cfg u name ipath tpath veh tools w)) jid = reasons (db w) jid"
  by (simp_all add: statuses_def reasons_def)

lemma scrape_attempts_lists:
  assumes "distinct urls" and "map competitor_url (job_competitor_rows (db w) jid) = urls"
    and "k < length urls" and "competitor_url c = urls ! k"
  shows "map competitor_url (job_competitor_rows (db (snd (scrape_attempts e cfg jid i c a n w))) jid) =
           urls \<and>
         statuses (db (snd (scrape_attempts e cfg jid i c a n w))) jid =
           (if fst (scrape_attempts e cfg jid i c a n w) = None then statuses (db w) jid
            else (statuses (db w) jid)[k := ''completed''])"
  using assms(2)
proof (induction n arbitrary: a w)
  case 0
  then show ?case by simp
next
  case (Suc n)
  show ?case
  proof (cases "run_scraper e i a")
    case (Inl x)
    from Suc.prems have "map competitor_url
        (job_competitor_rows (db (w\<lparr>trace := trace w @ [ScraperRun i a]\<rparr>)) jid) = urls" by simp
    from Suc.IH [OF this, of "a + 1"] Inl show ?thesis by simp
  next
    case (Inr r)
    obtain ipath tpath veh tools where r: "r = (ipath, tpath, veh, tools)" by (cases r) auto
    let ?w1 = "cache_save e cfg (competitor_url c) (competitor_name c) ipath tpath veh tools
                 (w\<lparr>trace := trace w @ [ScraperRun i a]\<rparr>)"
    have al: "map competitor_url (job_competitor_rows (db ?w1) jid) = urls"
      using Suc.prems by simp
    have st: "statuses (db ?w1) jid = statuses (db w) jid" by (simp add: statuses_def)
    from Inr r assms(4) statuses_update_nth(1) [OF assms(1) al assms(3)] st
      urls_update_competitor [of "db_clock e (tick ?w1)" jid "urls ! k" "''completed''"
        "Some ipath" "Some tpath" None "db ?w1"] al
    show ?thesis by simp
  qed
qed

lemma mark_aborted_lists:
  assumes "distinct urls" and "map competitor_url comps = urls"
    and "map competitor_url (job_competitor_rows (db w) jid) = urls" and "m \<le> length urls"
  shows "statuses (db (mark_aborted e jid (drop m comps) w)) jid =
           take m (statuses (db w) jid) @ replicate (length urls - m) ''aborted'' \<and>
         reasons (db (mark_aborted e jid (drop m comps) w)) jid =
           take m (reasons (db w) jid) @
           replicate (length urls - m) (Some ''Job aborted due to multiple failures'')"
  using assms(3,4)
proof (induction "length urls - m" arbitrary: m w)
  case 0
  then have m: "m = length urls" by simp
  from assms(2) have len: "length comps = length urls" by (metis length_map)
  from 0(2) have "length (statuses (db w) jid) = length urls"
    "length (reasons (db w) jid) = length urls"
    unfolding statuses_def reasons_def by (metis length_map)+
  with m len show ?case by simp
next
  case (Suc n)
  from assms(2) have len: "length comps = length urls" by (metis length_map)
  from Suc.hyps(2) have m: "m < length urls" by simp
  with len have d: "drop m comps = comps ! m # drop (Suc m) comps"
    by (simp add: Cons_nth_drop_Suc)
  from assms(2) m len have u: "competitor_url (comps ! m) = urls ! m" by (metis nth_map)
  let ?w1 = "job_update_competitor e jid (urls ! m) ''aborted'' None None
               (Some ''Job aborted due to multiple failures'') w"
  have al: "map competitor_url (job_competitor_rows (db ?w1) jid) = urls"
    using Suc.prems(1) by (simp add: urls_update_competitor)
  have n: "n = length urls - Suc m" using Suc.hyps(2) by simp
  have sm: "Suc m \<le> length urls" using m by simp
  from Suc.prems(1) have lens: "length (statuses (db w) jid) = length urls"
    "length (reasons (db w) jid) = length urls"
    by (simp_all add: statuses_def reasons_def) (metis length_map)+
  have st: "statuses (db ?w1) jid = (statuses (db w) jid)[m := ''aborted'']"
    and rs: "reasons (db ?w1) jid =
               (reasons (db w) jid)[m := Some ''Job aborted due to multiple failures'']"
    using statuses_update_nth [OF assms(1) Suc.prems(1) m] by simp_all
  have r: "length urls - m = Suc (length urls - Suc m)" using m by simp
  from Suc.hyps(1) [OF n al sm] d u st rs lens m
  show ?case
    by (simp add: r take_Suc_conv_app_nth)
qed

text \<open>The invariant of the loop, and how one more resolved competitor extends it.\<close>

lemma update_append_replicate:
  "length ds = k \<Longrightarrow> k < n \<Longrightarrow>
   (ds @ replicate (n - k) x)[k := v] = (ds @ [v]) @ replicate (n - Suc k) x"
proof -
  assume a: "length ds = k" "k < n"
  then have "n - k = Suc (n - Suc k)" by simp
  with a show ?thesis by (simp add: list_update_append)
qed

lemma history_ok_observed:
  "history_ok e cfg ds evs \<Longrightarrow> history_ok e cfg ds (evs @ [Observed r])"
  by (auto simp: history_ok_def)

lemma history_ok_extend:
  assumes h: "history_ok e cfg ds evs" and s1: "st = ''completed'' \<or> st = ''failed''"
    and s2: "st = ''failed'' \<longrightarrow> all_attempts_fail e cfg (Suc (length ds))"
    and s3: "st = ''completed'' \<and> all_attempts_fail e cfg (Suc (length ds)) \<longrightarrow> as = []"
  shows "history_ok e cfg (ds @ [st]) (evs @ map (ScraperRun (Suc (length ds))) as)"
proof -
  let ?evs = "evs @ map (ScraperRun (Suc (length ds))) as"
  from h have h1: "set ds \<subseteq> {''completed'', ''failed''}"
    and h2: "\<And>p. p < length ds \<Longrightarrow> ds ! p = ''failed'' \<Longrightarrow> all_attempts_fail e cfg (Suc p)"
    and h3: "\<And>p a. p < length ds \<Longrightarrow> ds ! p = ''completed'' \<Longrightarrow>
               all_attempts_fail e cfg (Suc p) \<Longrightarrow> ScraperRun (Suc p) a \<notin> set evs"
    and h4: "\<And>p a. ScraperRun p a \<in> set evs \<Longrightarrow> p \<le> length ds"
    and h5: "AnalysisRun \<notin> set evs" "\<And>a. EmailSend a \<notin> set evs"
    unfolding history_ok_def by blast+
  have a: "set (ds @ [st]) \<subseteq> {''completed'', ''failed''}" using h1 s1 by auto
  have b: "\<forall>p < length (ds @ [st]). (ds @ [st]) ! p = ''failed'' \<longrightarrow>
             all_attempts_fail e cfg (Suc p)"
    using h2 s2 by (auto simp: nth_append less_Suc_eq)
  have c: "\<forall>p < length (ds @ [st]). (ds @ [st]) ! p = ''completed'' \<and>
             all_attempts_fail e cfg (Suc p) \<longrightarrow> (\<forall>a. ScraperRun (Suc p) a \<notin> set ?evs)"
  proof (intro allI impI)
    fix p a
    assume p: "p < length (ds @ [st])"
      and q: "(ds @ [st]) ! p = ''completed'' \<and> all_attempts_fail e cfg (Suc p)"
    show "ScraperRun (Suc p) a \<notin> set ?evs"
    proof (cases "p < length ds")
      case True
      with q h3 [of p a] show ?thesis by (auto simp: nth_append)
    next
      case False
      with p have pl: "p = length ds" by simp
      with q s3 have "as = []" by simp
      moreover have "ScraperRun (Suc p) a \<notin> set evs" using h4 [of "Suc p" a] pl by auto
      ultimately show ?thesis by simp
    qed
  qed
  have d: "\<forall>p a. ScraperRun p a \<in> set ?evs \<longrightarrow> p \<le> length (ds @ [st])"
    by (auto dest!: h4)
  have f: "AnalysisRun \<notin> set ?evs" "\<forall>a. EmailSend a \<notin> set ?evs" using h5 by auto
  from a b c d f show ?thesis unfolding history_ok_def by blast
qed

lemma loop_inv_extend:
  assumes inv: "loop_inv e cfg jid urls c0 k f w" and k: "k < length urls"
    and al: "map competitor_url (job_competitor_rows (db w') jid) = urls"
    and st: "statuses (db w') jid = (statuses (db w) jid)[k := st]"
    and job: "lookup_job (db w') jid = Some j'" "completed_steps j' = c0 + int (Suc k)"
    and tr: "trace w' = (trace w @ map (ScraperRun (Suc k)) as) @ [Observed r]"
    and s1: "st = ''completed'' \<or> st = ''failed''"
    and s2: "st = ''failed'' \<longrightarrow> all_attempts_fail e cfg (Suc k)"
    and s3: "st = ''completed'' \<and> all_attempts_fail e cfg (Suc k) \<longrightarrow> as = []"
    and f: "f' = (if st = ''failed'' then Suc f else f)" "f' \<le> 1"
  shows "loop_inv e cfg jid urls c0 (Suc k) f' w'"
proof -
  from inv obtain ds where
    ds: "statuses (db w) jid = ds @ replicate (length urls - k) ''pending''" "length ds = k"
      "count_list ds ''failed'' = f" "history_ok e cfg ds (trace w)"
    unfolding loop_inv_def by blast
  have a: "statuses (db w') jid = (ds @ [st]) @ replicate (length urls - Suc k) ''pending''"
    unfolding st ds(1) using ds(2) k by (rule update_append_replicate)
  from s2 s3 ds(2) have "st = ''failed'' \<longrightarrow> all_attempts_fail e cfg (Suc (length ds))"
    "st = ''completed'' \<and> all_attempts_fail e cfg (Suc (length ds)) \<longrightarrow> as = []" by simp_all
  from history_ok_extend [OF ds(4) s1 this] ds(2)
  have "history_ok e cfg (ds @ [st]) (trace w @ map (ScraperRun (Suc k)) as)" by simp
  then have h: "history_ok e cfg (ds @ [st]) (trace w')"
    unfolding tr by (rule history_ok_observed)
  have c: "count_list (ds @ [st]) ''failed'' = f'" using ds(3) f(1) by simp
  have l: "length (ds @ [st]) = Suc k" using ds(2) by simp
  from a l c h have "\<exists>ds. statuses (db w') jid = ds @ replicate (length urls - Suc k) ''pending'' \<and>
           length ds = Suc k \<and> count_list ds ''failed'' = f' \<and> history_ok e cfg ds (trace w')"
    by blast
  moreover from job have "\<exists>j. lookup_job (db w') jid = Some j \<and>
      completed_steps j = c0 + int (Suc k)" by blast
  ultimately show ?thesis unfolding loop_inv_def using al f(2) k by simp
qed

lemma loop_inv_abort:
  assumes inv: "loop_inv e cfg jid urls c0 k f w" and k: "k < length urls" and f: "f = 1"
    and al: "map competitor_url (job_competitor_rows (db w') jid) = urls"
    and st: "statuses (db w') jid =
               take (Suc k) ((statuses (db w) jid)[k := ''failed'']) @
               replicate (length urls - Suc k) ''aborted''"
    and rs: "drop (Suc k) (reasons (db w') jid) =
               replicate (length urls - Suc k) (Some ''Job aborted due to multiple failures'')"
    and job: "lookup_job (db w') jid = Some j'" "status j' = ''failed''"
      "error_message j' = Some ''Aborting: 2 competitors failed (threshold: 2)''"
      "completed_steps j' = c0 + int k"
    and tr: "trace w' = (trace w @ map (ScraperRun (Suc k)) as) @ [Observed r]"
    and s2: "all_attempts_fail e cfg (Suc k)"
  shows "aborted_at e cfg jid urls c0 k w'"
proof -
  from inv obtain ds where
    ds: "statuses (db w) jid = ds @ replicate (length urls - k) ''pending''" "length ds = k"
      "count_list ds ''failed'' = f" "history_ok e cfg ds (trace w)"
    unfolding loop_inv_def by blast
  have "(statuses (db w) jid)[k := ''failed''] =
          (ds @ [''failed'']) @ replicate (length urls - Suc k) ''pending''"
    unfolding ds(1) using ds(2) k by (rule update_append_replicate)
  then have a: "statuses (db w') jid =
      (ds @ [''failed'']) @ replicate (length urls - Suc k) ''aborted''"
    unfolding st using ds(2) by simp
  from s2 ds(2) have s2': "''failed'' = ''failed'' \<longrightarrow> all_attempts_fail e cfg (Suc (length ds))"
    and s3': "''failed'' = ''completed'' \<and> all_attempts_fail e cfg (Suc (length ds)) \<longrightarrow> as = []"
    by simp_all
  have "''failed'' = ''completed'' \<or> ''failed'' = ''failed''" by simp
  from history_ok_extend [OF ds(4) this s2' s3'] ds(2)
  have "history_ok e cfg (ds @ [''failed'']) (trace w @ map (ScraperRun (Suc k)) as)" by simp
  then have h: "history_ok e cfg (ds @ [''failed'']) (trace w')"
    unfolding tr by (rule history_ok_observed)
  from a ds(2,3) f h have "\<exists>ds. statuses (db w') jid =
             (ds @ [''failed'']) @ replicate (length urls - Suc k) ''aborted'' \<and>
           length ds = k \<and> count_list ds ''failed'' = 1 \<and>
           history_ok e cfg (ds @ [''failed'']) (trace w')" by blast
  moreover from job have "\<exists>j. lookup_job (db w') jid = Some j \<and> status j = ''failed'' \<and>
          error_message j = Some ''Aborting: 2 competitors failed (threshold: 2)'' \<and>
          completed_steps j = c0 + int k" by blast
  ultimately show ?thesis unfolding aborted_at_def using al rs k by simp
qed

lemma loop_inv_tick:
  "loop_inv e cfg jid urls c0 k f w \<Longrightarrow> loop_inv e cfg jid urls c0 k f (w\<lparr>tick := t\<rparr>)"
  by (simp add: loop_inv_def)

text \<open>The outcomes of an iteration, and the invariant across one iteration and across the loop.\<close>

lemma resolve_competitor_raise:
  assumes "cache_lookup e i (competitor_url c) w = CacheRaise x"
  shows "resolve_competitor e cfg jid comps i c completed failed data w =
           Raise x (w\<lparr>tick := tick w + 1\<rparr>)"
  using assms by (simp add: resolve_competitor_def Let_def)

lemma resolve_competitor_hit:
  assumes "cache_lookup e i (competitor_url c) w = CacheHit p q"
  shows "resolve_competitor e cfg jid comps i c completed failed data w =
           Continue (completed + 1) failed
             (data @ [(competitor_name c, competitor_url c, p, q)])
             (job_update_progress e jid (completed + 1)
                (job_update_competitor e jid (competitor_url c) ''completed'' (Some p) (Some q)
                   None (w\<lparr>tick := tick w + 1\<rparr>)))"
  using assms by (simp add: resolve_competitor_def Let_def)

lemma resolve_competitor_scraped:
  assumes "cache_lookup e i (competitor_url c) w = CacheMiss"
    and "scrape_attempts e cfg jid i c 1 (nat (scraper_max_retries cfg))
           (w\<lparr>tick := tick w + 1\<rparr>) = (Some (ipath, tpath), w2)"
  shows "resolve_competitor e cfg jid comps i c completed failed data w =
           Continue (completed + 1) failed
             (data @ [(competitor_name c, competitor_url c, ipath, tpath)])
             (job_update_progress e jid (completed + 1) w2)"
  using assms by (simp add: resolve_competitor_def Let_def)

lemma resolve_competitor_failed:
  assumes "cache_lookup e i (competitor_url c) w = CacheMiss"
    and "scrape_attempts e cfg jid i c 1 (nat (scraper_max_retries cfg))
           (w\<lparr>tick := tick w + 1\<rparr>) = (None, w2)"
    and "\<not> 2 \<le> failed + 1"
  shows "resolve_competitor e cfg jid comps i c completed failed data w =
           Continue (completed + 1) (failed + 1) data
             (job_update_progress e jid (completed + 1)
                (job_update_competitor e jid (competitor_url c) ''failed'' None None
                   (Some (''Scraping failed after '' @
                          str_int (scraper_max_retries cfg) @ '' retries'')) w2))"
  using assms by (simp add: resolve_competitor_def Let_def)

lemma scrape_attempts_none:
  assumes "all_attempts_fail e cfg i"
  shows "scrape_attempts e cfg jid i c 1 (nat (scraper_max_retries cfg)) w =
           (None, w\<lparr>trace := trace w @
                      map (ScraperRun i) [1..<1 + nat (scraper_max_retries cfg)]\<rparr>)"
  using assms unfolding all_attempts_fail_iff by (rule scrape_attempts_all_fail)

lemma scrape_attempts_some:
  assumes "\<not> all_attempts_fail e cfg i"
  shows "\<exists>ipath tpath w2. scrape_attempts e cfg jid i c 1 (nat (scraper_max_retries cfg)) w =
           (Some (ipath, tpath), w2)"
proof -
  from assms have "\<not> (\<forall>k. 1 \<le> k \<and> k < 1 + nat (scraper_max_retries cfg) \<longrightarrow>
                       isl (run_scraper e i k))"
    unfolding all_attempts_fail_iff .
  from scrape_attempts_success [OF this, where cfg = cfg and jid = jid and c = c and w = w] show ?thesis by auto
qed

lemma loop_inv_step:
  assumes inv: "loop_inv e cfg jid urls c0 k f w" and d: "distinct urls"
    and k: "k < length urls" and comps: "map competitor_url comps = urls"
    and c: "competitor_url c = urls ! k" and completed: "completed = c0 + int k"
  shows "case resolve_competitor e cfg jid comps (Suc k) c completed f data w of
           Continue c' f' d' w' \<Rightarrow>
             c' = c0 + int (Suc k) \<and> loop_inv e cfg jid urls c0 (Suc k) f' w'
         | Abort w' \<Rightarrow> aborted_at e cfg jid urls c0 k w'
         | Raise x w' \<Rightarrow> loop_inv e cfg jid urls c0 k f w'"
proof -
  let ?u = "urls ! k"
  let ?n = "nat (scraper_max_retries cfg)"
  let ?w1 = "w\<lparr>tick := tick w + 1\<rparr>"
  let ?R = "resolve_competitor e cfg jid comps (Suc k) c completed f data w"
  from inv have al: "map competitor_url (job_competitor_rows (db w) jid) = urls"
    and f1: "f \<le> 1" by (simp_all add: loop_inv_def)
  from inv obtain j where j: "lookup_job (db w) jid = Some j"
    "completed_steps j = c0 + int k" unfolding loop_inv_def by blast
  have inv1: "loop_inv e cfg jid urls c0 k f ?w1" using inv by (rule loop_inv_tick)
  have al1: "map competitor_url (job_competitor_rows (db ?w1) jid) = urls" using al by simp
  have cs: "c0 + int k + 1 = c0 + int (Suc k)" by simp
  show ?thesis
  proof (cases "cache_lookup e (Suc k) (competitor_url c) w")
    case (CacheRaise x)
    from resolve_competitor_raise [OF this] inv1 show ?thesis by simp
  next
    case (CacheHit p q)
    let ?w2 = "job_update_competitor e jid ?u ''completed'' (Some p) (Some q) None ?w1"
    let ?w3 = "job_update_progress e jid (completed + 1) ?w2"
    have res: "?R = Continue (completed + 1) f
                 (data @ [(competitor_name c, competitor_url c, p, q)]) ?w3"
      using resolve_competitor_hit [OF CacheHit] c by simp
    have a: "map competitor_url (job_competitor_rows (db ?w3) jid) = urls"
      using al by (simp add: urls_update_competitor)
    have b: "statuses (db ?w3) jid = (statuses (db w) jid)[k := ''completed'']"
      using statuses_update_nth(1) [OF d al k] by simp
    have g: "lookup_job (db ?w3) jid =
               Some (update_progress_row (db_clock e (tick ?w2)) (completed + 1) j)"
      using j(1) by (simp add: update_progress_lookup)
    have h: "completed_steps (update_progress_row (db_clock e (tick ?w2)) (completed + 1) j) =
               c0 + int (Suc k)"
      using completed by (simp add: update_progress_row_def)
    have t: "trace ?w3 = (trace w @ map (ScraperRun (Suc k)) []) @
               [Observed (lookup_job (db ?w3) jid)]" by simp
    have "loop_inv e cfg jid urls c0 (Suc k) f ?w3"
      by (rule loop_inv_extend [OF inv k a b g h t]) (use f1 in simp_all)
    with res completed show ?thesis by simp
  next
    case CacheMiss
    show ?thesis
    proof (cases "all_attempts_fail e cfg (Suc k)")
      case False
      from scrape_attempts_some [OF False, where jid = jid and c = c and w = ?w1] obtain ipath tpath w2 where
        sa: "scrape_attempts e cfg jid (Suc k) c 1 ?n ?w1 = (Some (ipath, tpath), w2)" by blast
      let ?w3 = "job_update_progress e jid (completed + 1) w2"
      have res: "?R = Continue (completed + 1) f
                 (data @ [(competitor_name c, competitor_url c, ipath, tpath)]) ?w3"
        by (rule resolve_competitor_scraped [OF CacheMiss sa])
      from scrape_attempts_lists [OF d al1 k c, of e cfg "Suc k" 1 ?n] sa
      have a2: "map competitor_url (job_competitor_rows (db w2) jid) = urls"
        and b2: "statuses (db w2) jid = (statuses (db w) jid)[k := ''completed'']" by simp_all
      from scrape_attempts_frame [of e cfg jid "Suc k" c 1 ?n ?w1 jid] sa j(1)
      obtain as where j2: "lookup_job (db w2) jid = Some j"
        and t2: "trace w2 = trace w @ map (ScraperRun (Suc k)) as" by auto
      have a: "map competitor_url (job_competitor_rows (db ?w3) jid) = urls" using a2 by simp
      have b: "statuses (db ?w3) jid = (statuses (db w) jid)[k := ''completed'']"
        using b2 by simp
      have g: "lookup_job (db ?w3) jid =
               Some (update_progress_row (db_clock e (tick w2)) (completed + 1) j)"
        using j2 by (simp add: update_progress_lookup)
      have h: "completed_steps (update_progress_row (db_clock e (tick w2)) (completed + 1) j) =
               c0 + int (Suc k)"
        using completed by (simp add: update_progress_row_def)
      have t: "trace ?w3 = (trace w @ map (ScraperRun (Suc k)) as) @
               [Observed (lookup_job (db ?w3) jid)]" using t2 by simp
      have "loop_inv e cfg jid urls c0 (Suc k) f ?w3"
        by (rule loop_inv_extend [OF inv k a b g h t]) (use f1 False in simp_all)
      with res completed show ?thesis by simp
    next
      case True
      let ?as = "[1..<1 + ?n]"
      let ?w2 = "?w1\<lparr>trace := trace ?w1 @ map (ScraperRun (Suc k)) ?as\<rparr>"
      let ?msg = "Some (''Scraping failed after '' @ str_int (scraper_max_retries cfg) @
                        '' retries'')"
      let ?w3 = "job_update_competitor e jid ?u ''failed'' None None ?msg ?w2"
      have sa: "scrape_attempts e cfg jid (Suc k) c 1 ?n ?w1 = (None, ?w2)"
        by (rule scrape_attempts_none [OF True])
      have a3: "map competitor_url (job_competitor_rows (db ?w3) jid) = urls"
        using al by (simp add: urls_update_competitor)
      have b3: "statuses (db ?w3) jid = (statuses (db w) jid)[k := ''failed'']"
        using statuses_update_nth(1) [OF d al k] by simp
      have j3: "lookup_job (db ?w3) jid = Some j" using j(1) by simp
      have t3: "trace ?w3 = trace w @ map (ScraperRun (Suc k)) ?as" by simp
      show ?thesis
      proof (cases "f = 0")
        case f0: True
        let ?w4 = "job_update_progress e jid (completed + 1) ?w3"
        have "\<not> 2 \<le> f + 1" using f0 by simp
        from resolve_competitor_failed [OF CacheMiss sa this] c
        have res: "?R = Continue (completed + 1) (f + 1) data ?w4" by simp
        have a: "map competitor_url (job_competitor_rows (db ?w4) jid) = urls"
          using a3 by simp
        have b: "statuses (db ?w4) jid = (statuses (db w) jid)[k := ''failed'']"
          using b3 by simp
        have g: "lookup_job (db ?w4) jid =
                 Some (update_progress_row (db_clock e (tick ?w3)) (completed + 1) j)"
          using j3 by (simp add: update_progress_lookup)
        have h: "completed_steps (update_progress_row (db_clock e (tick ?w3)) (completed + 1) j) =
                 c0 + int (Suc k)"
          using completed by (simp add: update_progress_row_def)
        have t: "trace ?w4 = (trace w @ map (ScraperRun (Suc k)) ?as) @
                 [Observed (lookup_job (db ?w4) jid)]" using t3 by simp
        have "loop_inv e cfg jid urls c0 (Suc k) (f + 1) ?w4"
          by (rule loop_inv_extend [OF inv k a b g h t]) (use f0 True in simp_all)
        with res completed show ?thesis by simp
      next
        case False
        with f1 have fe: "f = 1" by simp
        let ?w4 = "mark_aborted e jid (drop (Suc k) comps) ?w3"
        let ?w5 = "job_update_status e jid ''failed'' None
                     (Some ''Aborting: 2 competitors failed (threshold: 2)'') ?w4"
        have m: "''Aborting: '' @ str_nat (f + 1) @ '' competitors failed (threshold: 2)'' =
                 ''Aborting: 2 competitors failed (threshold: 2)''"
          using fe by (simp add: str_nat.simps)
        have "2 \<le> f + 1" using fe by simp
        from resolve_competitor_abort [OF CacheMiss sa this] c
        have res: "?R = Abort ?w5" by (simp only: m)
        have sk: "Suc k \<le> length urls" using k by simp
        from mark_aborted_lists [OF d comps a3 sk, of e]
        have st4: "statuses (db ?w4) jid =
                     take (Suc k) (statuses (db ?w3) jid) @
                     replicate (length urls - Suc k) ''aborted''"
          and rs4: "reasons (db ?w4) jid =
                     take (Suc k) (reasons (db ?w3) jid) @
                     replicate (length urls - Suc k)
                       (Some ''Job aborted due to multiple failures'')" by simp_all
        have a: "map competitor_url (job_competitor_rows (db ?w5) jid) = urls"
          using a3 by (simp add: urls_mark_aborted)
        have b: "statuses (db ?w5) jid =
                   take (Suc k) ((statuses (db w) jid)[k := ''failed'']) @
                   replicate (length urls - Suc k) ''aborted''"
          using st4 b3 by simp
        have "length (reasons (db ?w3) jid) = length urls"
          using a3 unfolding reasons_def by (metis length_map)
        with rs4 sk have r: "drop (Suc k) (reasons (db ?w5) jid) =
                   replicate (length urls - Suc k)
                     (Some ''Job aborted due to multiple failures'')" by simp
        have "lookup_job (db ?w4) jid = Some j" using j3 by (simp only: mark_aborted_frame)
        then have g: "lookup_job (db ?w5) jid =
            Some (update_status_row (db_clock e (tick ?w4)) ''failed'' None
                    (Some ''Aborting: 2 competitors failed (threshold: 2)'') j)"
          by (simp add: update_status_lookup)
        have t: "trace ?w5 = (trace w @ map (ScraperRun (Suc k)) ?as) @
                 [Observed (lookup_job (db ?w5) jid)]"
          using t3 by (simp add: mark_aborted_frame)
        have "aborted_at e cfg jid urls c0 k ?w5"
          by (rule loop_inv_abort [OF inv k fe a b r g _ _ _ t True])
             (simp_all add: update_status_row_def j(2))
        with res show ?thesis by simp
      qed
    qed
  qed
qed

lemma competitor_loop_inv:
  assumes d: "distinct urls" and comps: "map competitor_url comps = urls"
  shows "loop_inv e cfg jid urls c0 k f w \<Longrightarrow>
         case competitor_loop e cfg jid comps (Suc k) (drop k comps) (c0 + int k) f data w of
           LoopDone c' d' w' \<Rightarrow>
             c' = c0 + int (length urls) \<and> (\<exists>f'. loop_inv e cfg jid urls c0 (length urls) f' w')
         | LoopAborted w' \<Rightarrow> (\<exists>k' < length urls. aborted_at e cfg jid urls c0 k' w')
         | LoopRaised x w' \<Rightarrow>
             (\<exists>k' f'. k' < length urls \<and> loop_inv e cfg jid urls c0 k' f' w')"
proof (induction "length urls - k" arbitrary: k f data w)
  case 0
  from 0(2) have "k \<le> length urls" by (simp add: loop_inv_def)
  with 0(1) have k: "k = length urls" by simp
  from comps have "length comps = length urls" by (metis length_map)
  with k have "drop k comps = []" by simp
  with 0(2) k show ?case by auto
next
  case (Suc n)
  from Suc.hyps(2) have k: "k < length urls" by simp
  from comps have len: "length comps = length urls" by (metis length_map)
  with k have dr: "drop k comps = comps ! k # drop (Suc k) comps"
    by (simp add: Cons_nth_drop_Suc)
  from comps k len have u: "competitor_url (comps ! k) = urls ! k" by (metis nth_map)
  let ?R = "resolve_competitor e cfg jid comps (Suc k) (comps ! k) (c0 + int k) f data w"
  note step = loop_inv_step [OF Suc.prems d k comps u refl, where data = data]
  show ?case
  proof (cases ?R)
    case (Continue c' f' d' w')
    with step have c': "c' = c0 + int (Suc k)"
      and inv': "loop_inv e cfg jid urls c0 (Suc k) f' w'" by simp_all
    from Suc.hyps(2) have n: "n = length urls - Suc k" by simp
    from Suc.hyps(1) [OF n inv', where data = d'] Continue c' dr show ?thesis by simp
  next
    case (Abort w')
    with step k dr show ?thesis by auto
  next
    case (Raise x w')
    with step k dr show ?thesis by auto
  qed
qed

text \<open>The phases after the loop change neither the competitor rows nor the calls of the scraper.\<close>

lemma later_phase_refl: "later_phase w w"
  by (simp add: later_phase_def)

lemma later_phase_trans: "later_phase w w' \<Longrightarrow> later_phase w' w'' \<Longrightarrow> later_phase w w''"
  by (simp add: later_phase_def)

lemma later_phase_status: "later_phase w (job_update_status e jid st step err w)"
  by (simp add: later_phase_def)

lemma later_phase_progress: "later_phase w (job_update_progress e jid n w)"
  by (simp add: later_phase_def)

lemma later_phase_tick: "later_phase w (w\<lparr>tick := t\<rparr>)"
  by (simp add: later_phase_def)

lemma later_phase_analysis: "later_phase w (w\<lparr>trace := trace w @ [AnalysisRun]\<rparr>)"
  by (simp add: later_phase_def)

lemma later_phase_fail_job: "later_phase w (snd (fail_job e jid msg w))"
  by (simp add: fail_job_def later_phase_status)

lemma later_phase_email_attempts: "later_phase w (snd (email_attempts e a n w))"
proof -
  from email_attempts_frame [of e a n w] obtain as where
    "db (snd (email_attempts e a n w)) = db w"
    "trace (snd (email_attempts e a n w)) = trace w @ map EmailSend as"
    by blast
  then show ?thesis by (auto simp: later_phase_def)
qed

lemma later_phase_finalize: "later_phase w (snd (finalize_phase e jid cs w))"
  unfolding finalize_phase_def snd_conv
  by (rule later_phase_trans [OF later_phase_status later_phase_progress])

lemma later_phase_email_phase: "later_phase w (snd (email_phase e cfg jid cs w))"
proof -
  let ?w1 = "job_update_status e jid ''processing'' (Some ''Sending email'') None w"
  obtain ok w2 where ea: "email_attempts e 1 (nat (email_max_retries cfg)) ?w1 = (ok, w2)"
    by (cases "email_attempts e 1 (nat (email_max_retries cfg)) ?w1")
  from later_phase_email_attempts [of ?w1 e 1 "nat (email_max_retries cfg)"] ea
  have "later_phase ?w1 w2" by simp
  with later_phase_status have w2: "later_phase w w2" by (rule later_phase_trans)
  show ?thesis
  proof (cases ok)
    case True
    have "later_phase w2 (snd (finalize_phase e jid (cs + 1) (job_update_progress e jid (cs + 1) w2)))"
      by (rule later_phase_trans [OF later_phase_progress later_phase_finalize])
    with w2 have "later_phase w (snd (finalize_phase e jid (cs + 1)
                     (job_update_progress e jid (cs + 1) w2)))"
      by (rule later_phase_trans)
    with True ea show ?thesis by (simp add: email_phase_def)
  next
    case False
    from w2 later_phase_fail_job have "later_phase w (snd (fail_job e jid
        (''Email failed after '' @ str_int (email_max_retries cfg) @ '' retries'') w2))"
      by (rule later_phase_trans)
    with False ea show ?thesis by (simp add: email_phase_def)
  qed
qed

lemma later_phase_analysis_phase: "later_phase w (snd (analysis_phase e cfg jid cs data w))"
proof -
  let ?w1 = "job_update_status e jid ''processing'' (Some ''Running analysis'') None w"
  let ?w2 = "?w1\<lparr>trace := trace ?w1 @ [AnalysisRun]\<rparr>"
  have w2: "later_phase w ?w2"
    by (rule later_phase_trans [OF later_phase_status later_phase_analysis])
  show ?thesis
  proof (cases "run_analysis e (map (\<lambda>(name, u, ipath, tpath). (ipath, tpath)) data)")
    case None
    have "later_phase ?w2 (snd (email_phase e cfg jid (cs + 1)
                                  (job_update_progress e jid (cs + 1) ?w2)))"
      by (rule later_phase_trans [OF later_phase_progress later_phase_email_phase])
    with w2 have "later_phase w (snd (email_phase e cfg jid (cs + 1)
                                  (job_update_progress e jid (cs + 1) ?w2)))"
      by (rule later_phase_trans)
    with None show ?thesis by (simp add: analysis_phase_def Let_def)
  next
    case (Some x)
    from w2 later_phase_fail_job
    have "later_phase w (snd (fail_job e jid (''Analysis failed: '' @ x) ?w2))"
      by (rule later_phase_trans)
    with Some show ?thesis by (simp add: analysis_phase_def Let_def)
  qed
qed

lemma later_phase_after_loop:
  "later_phase w (snd (after_loop e cfg jid (LoopDone cs data w)))"
  "later_phase w (snd (after_loop e cfg jid (LoopRaised x w)))"
  "later_phase w (snd (after_loop e cfg jid (LoopAborted w)))"
  by (simp_all add: later_phase_fail_job later_phase_analysis_phase later_phase_refl)

text \<open>The invariant when the loop starts, and what it says of the rows when the loop has ended.\<close>

lemma all_pending:
  assumes "set xs \<subseteq> {x}"
  shows "xs = replicate (length xs) x"
proof -
  from assms have "\<forall>y \<in> set xs. y = x" by auto
  then show ?thesis by (simp add: replicate_length_same)
qed

lemma count_list_replicate_other: "x \<noteq> y \<Longrightarrow> count_list (replicate m x) y = 0"
  by (induction m) auto

lemma resolved_append: "resolved (xs @ ys) = resolved xs + resolved ys"
  by (simp add: resolved_def)

lemma resolved_all:
  "set ds \<subseteq> {''completed'', ''failed''} \<Longrightarrow> resolved ds = length ds"
  unfolding resolved_def by (induction ds) auto

lemma resolved_replicate_other:
  "x \<noteq> ''completed'' \<Longrightarrow> x \<noteq> ''failed'' \<Longrightarrow> resolved (replicate m x) = 0"
  unfolding resolved_def by (induction m) auto

lemma no_calls:
  assumes "filter is_call evs = []"
  shows "\<forall>p a. ScraperRun p a \<notin> set evs" and "AnalysisRun \<notin> set evs"
    and "\<forall>a. EmailSend a \<notin> set evs"
proof -
  from assms have a: "\<forall>ev \<in> set evs. \<not> is_call ev" by (simp add: filter_empty_conv)
  show "\<forall>p a. ScraperRun p a \<notin> set evs"
  proof (intro allI notI)
    fix p a
    assume "ScraperRun p a \<in> set evs"
    with a have "\<not> is_call (ScraperRun p a)" by blast
    then show False by simp
  qed
  show "AnalysisRun \<notin> set evs"
  proof
    assume "AnalysisRun \<in> set evs"
    with a have "\<not> is_call AnalysisRun" by blast
    then show False by simp
  qed
  show "\<forall>a. EmailSend a \<notin> set evs"
  proof (intro allI notI)
    fix a
    assume "EmailSend a \<in> set evs"
    with a have "\<not> is_call (EmailSend a)" by blast
    then show False by simp
  qed
qed

lemma history_ok_start: "filter is_call evs = [] \<Longrightarrow> history_ok e cfg [] evs"
  using no_calls [of evs] by (simp add: history_ok_def)

lemma loop_inv_fresh:
  assumes "lookup_job (db w) jid = Some j" and "completed_steps j = c0"
    and "set (statuses (db w) jid) \<subseteq> {''pending''}" and "filter is_call (trace w) = []"
  shows "loop_inv e cfg jid (map competitor_url (job_competitor_rows (db w) jid)) c0 0 0 w"
proof -
  let ?urls = "map competitor_url (job_competitor_rows (db w) jid)"
  have len: "length (statuses (db w) jid) = length ?urls" by (simp add: statuses_def)
  from all_pending [OF assms(3)] len
  have "statuses (db w) jid = [] @ replicate (length ?urls - 0) ''pending''" by simp
  moreover have "history_ok e cfg [] (trace w)" using assms(4) by (rule history_ok_start)
  ultimately have "\<exists>ds. statuses (db w) jid = ds @ replicate (length ?urls - 0) ''pending'' \<and>
      length ds = 0 \<and> count_list ds ''failed'' = 0 \<and> history_ok e cfg ds (trace w)"
    by (intro exI [of _ "[]"]) simp
  moreover from assms(1,2) have "\<exists>j. lookup_job (db w) jid = Some j \<and>
      completed_steps j = c0 + int 0" by simp
  ultimately show ?thesis unfolding loop_inv_def by simp
qed

lemma loop_inv_observe:
  assumes inv: "loop_inv e cfg jid urls c0 0 f w"
    and rows: "job_competitors (db w') = job_competitors (db w)"
    and job: "lookup_job (db w') jid = Some j'" "completed_steps j' = c1"
    and tr: "trace w' = trace w @ [Observed r]"
  shows "loop_inv e cfg jid urls c1 0 f w'"
proof -
  from rows have r: "job_competitor_rows (db w') jid = job_competitor_rows (db w) jid"
    by (rule job_competitor_rows_cong)
  then have s: "statuses (db w') jid = statuses (db w) jid" by (simp add: statuses_def)
  from inv obtain ds where
    ds: "statuses (db w) jid = ds @ replicate (length urls - 0) ''pending''" "length ds = 0"
      "count_list ds ''failed'' = f" "history_ok e cfg ds (trace w)"
    unfolding loop_inv_def by blast
  from ds(4) have "history_ok e cfg ds (trace w')" unfolding tr by (rule history_ok_observed)
  with ds(1,2,3) s have "\<exists>ds. statuses (db w') jid = ds @ replicate (length urls - 0) ''pending'' \<and>
      length ds = 0 \<and> count_list ds ''failed'' = f \<and> history_ok e cfg ds (trace w')" by auto
  moreover from job have "\<exists>j. lookup_job (db w') jid = Some j \<and>
      completed_steps j = c1 + int 0" by simp
  ultimately show ?thesis using inv r unfolding loop_inv_def by simp
qed

lemma loop_inv_summary:
  assumes "loop_inv e cfg jid urls c0 k f w"
  shows "persisted_steps (db w) jid = Some (c0 + int k)"
    and "resolved (statuses (db w) jid) = k"
    and "count_list (statuses (db w) jid) ''failed'' = f" and "f \<le> 1"
proof -
  from assms obtain ds where
    ds: "statuses (db w) jid = ds @ replicate (length urls - k) ''pending''" "length ds = k"
      "count_list ds ''failed'' = f" "history_ok e cfg ds (trace w)"
    unfolding loop_inv_def by blast
  from ds(4) have sub: "set ds \<subseteq> {''completed'', ''failed''}" by (simp add: history_ok_def)
  from assms show "persisted_steps (db w) jid = Some (c0 + int k)"
    unfolding loop_inv_def persisted_steps_def by auto
  have "resolved ds = k" using resolved_all [OF sub] ds(2) by simp
  moreover have "resolved (replicate (length urls - k) ''pending'') = 0"
    by (simp add: resolved_replicate_other)
  ultimately show "resolved (statuses (db w) jid) = k"
    unfolding ds(1) by (simp only: resolved_append)
  show "count_list (statuses (db w) jid) ''failed'' = f"
    unfolding ds(1) using ds(3) by (simp add: count_list_replicate_other)
  from assms show "f \<le> 1" by (simp add: loop_inv_def)
qed

lemma aborted_at_summary:
  assumes "aborted_at e cfg jid urls c0 k w"
  shows "persisted_steps (db w) jid = Some (c0 + int k)"
    and "resolved (statuses (db w) jid) = Suc k"
    and "count_list (statuses (db w) jid) ''failed'' = 2"
proof -
  from assms obtain ds where
    ds: "statuses (db w) jid =
           (ds @ [''failed'']) @ replicate (length urls - Suc k) ''aborted''" "length ds = k"
      "count_list ds ''failed'' = 1" "history_ok e cfg (ds @ [''failed'']) (trace w)"
    unfolding aborted_at_def by blast
  from ds(4) have sub: "set (ds @ [''failed'']) \<subseteq> {''completed'', ''failed''}"
    by (simp add: history_ok_def)
  from assms show "persisted_steps (db w) jid = Some (c0 + int k)"
    unfolding aborted_at_def persisted_steps_def by auto
  have "resolved (ds @ [''failed'']) = Suc k" using resolved_all [OF sub] ds(2) by simp
  moreover have "resolved (replicate (length urls - Suc k) ''aborted'') = 0"
    by (simp add: resolved_replicate_other)
  ultimately show "resolved (statuses (db w) jid) = Suc k"
    unfolding ds(1) by (simp only: resolved_append)
  show "count_list (statuses (db w) jid) ''failed'' = 2"
    unfolding ds(1) using ds(3) by (simp add: count_list_replicate_other)
qed

lemma competitor_loop_totals:
  assumes job: "lookup_job (db w) jid = Some j" "completed_steps j = completed"
    and comps: "comps = job_competitor_rows (db w) jid"
    and d: "distinct (map competitor_url comps)"
    and fresh: "set (statuses (db w) jid) \<subseteq> {''pending''}"
    and calls: "filter is_call (trace w) = []"
  shows "case competitor_loop e cfg jid comps 1 comps completed 0 [] w of
           LoopDone c' d' w' \<Rightarrow>
             c' = completed + int (length comps) \<and>
             persisted_steps (db w') jid = Some c' \<and>
             resolved (statuses (db w') jid) = length comps \<and>
             count_list (statuses (db w') jid) ''failed'' \<le> 1
         | LoopAborted w' \<Rightarrow>
             persisted_steps (db w') jid =
               Some (completed + int (resolved (statuses (db w') jid)) - 1) \<and>
             count_list (statuses (db w') jid) ''failed'' = 2
         | LoopRaised x w' \<Rightarrow>
             persisted_steps (db w') jid =
               Some (completed + int (resolved (statuses (db w') jid))) \<and>
             count_list (statuses (db w') jid) ''failed'' \<le> 1"
proof -
  let ?urls = "map competitor_url comps"
  from loop_inv_fresh [OF job fresh calls, of e cfg] comps
  have inv: "loop_inv e cfg jid ?urls completed 0 0 w" by simp
  note loop = competitor_loop_inv [OF d refl inv, where data = "[]"]
  show ?thesis
  proof (cases "competitor_loop e cfg jid comps 1 comps completed 0 [] w")
    case (LoopDone c' d' w')
    with loop obtain f' where c': "c' = completed + int (length comps)"
      and inv': "loop_inv e cfg jid ?urls completed (length ?urls) f' w'" by auto
    from loop_inv_summary [OF inv'] c' LoopDone show ?thesis by simp
  next
    case (LoopAborted w')
    with loop obtain k' where "aborted_at e cfg jid ?urls completed k' w'" by auto
    from aborted_at_summary [OF this] LoopAborted show ?thesis by simp
  next
    case (LoopRaised x w')
    with loop obtain k' f' where "loop_inv e cfg jid ?urls completed k' f' w'" by auto
    from loop_inv_summary [OF this] LoopRaised show ?thesis by simp
  qed
qed

text \<open>One iteration, outcome by outcome.\<close>

lemma url_statuses_frame [simp]:
  "url_statuses (update_status now jid' st step err s) jid u = url_statuses s jid u"
  "url_statuses (update_progress now jid' n s) jid u = url_statuses s jid u"
  by (simp_all add: url_statuses_def)

lemma url_statuses_update:
  "set (url_statuses (update_competitor_status now jid u st ipath tpath err s) jid u) \<subseteq> {st}"
  unfolding url_statuses_def by (auto dest: rows_after_update)

lemma persisted_steps_progress:
  "lookup_job s jid = Some j \<Longrightarrow> persisted_steps (update_progress now jid n s) jid = Some n"
  by (simp add: persisted_steps_def update_progress_lookup update_progress_row_def)

lemma resolve_competitor_outcomes:
  assumes job: "lookup_job (db w) jid = Some j" "completed_steps j = completed"
  shows "case cache_lookup e i (competitor_url c) w of
           CacheRaise x \<Rightarrow>
             resolve_competitor e cfg jid comps i c completed failed data w =
               Raise x (w\<lparr>tick := tick w + 1\<rparr>)
         | CacheHit p q \<Rightarrow>
             (\<exists>w'. resolve_competitor e cfg jid comps i c completed failed data w =
                     Continue (completed + 1) failed
                       (data @ [(competitor_name c, competitor_url c, p, q)]) w' \<and>
                   persisted_steps (db w') jid = Some (completed + 1) \<and>
                   set (url_statuses (db w') jid (competitor_url c)) \<subseteq> {''completed''})
         | CacheMiss \<Rightarrow>
             (if \<not> all_attempts_fail e cfg i
              then \<exists>ipath tpath w'.
                     resolve_competitor e cfg jid comps i c completed failed data w =
                       Continue (completed + 1) failed
                         (data @ [(competitor_name c, competitor_url c, ipath, tpath)]) w' \<and>
                     persisted_steps (db w') jid = Some (completed + 1) \<and>
                     set (url_statuses (db w') jid (competitor_url c)) \<subseteq> {''completed''}
              else if failed + 1 < 2
              then \<exists>w'. resolve_competitor e cfg jid comps i c completed failed data w =
                          Continue (completed + 1) (failed + 1) data w' \<and>
                        persisted_steps (db w') jid = Some (completed + 1) \<and>
                        set (url_statuses (db w') jid (competitor_url c)) \<subseteq> {''failed''}
              else \<exists>w'. resolve_competitor e cfg jid comps i c completed failed data w =
                          Abort w' \<and>
                        persisted_steps (db w') jid = Some completed \<and>
                        (\<exists>j'. lookup_job (db w') jid = Some j' \<and> status j' = ''failed'') \<and>
                        set (url_statuses (db w') jid (competitor_url c)) \<subseteq>
                          {if competitor_url c \<in> competitor_url ` set (drop i comps)
                           then ''aborted'' else ''failed''})"
proof -
  let ?u = "competitor_url c"
  let ?n = "nat (scraper_max_retries cfg)"
  let ?w1 = "w\<lparr>tick := tick w + 1\<rparr>"
  let ?R = "resolve_competitor e cfg jid comps i c completed failed data w"
  have j1: "lookup_job (db ?w1) jid = Some j" using job(1) by simp
  show ?thesis
  proof (cases "cache_lookup e i ?u w")
    case (CacheRaise x)
    from resolve_competitor_raise [OF this] CacheRaise show ?thesis by simp
  next
    case (CacheHit p q)
    let ?w2 = "job_update_competitor e jid ?u ''completed'' (Some p) (Some q) None ?w1"
    let ?w3 = "job_update_progress e jid (completed + 1) ?w2"
    note res = resolve_competitor_hit [OF CacheHit, where cfg = cfg and jid = jid and comps = comps
        and completed = completed and failed = failed and data = data]
    have "lookup_job (db ?w2) jid = Some j" using j1 by simp
    then have a: "persisted_steps (db ?w3) jid = Some (completed + 1)"
      by (simp add: persisted_steps_progress)
    have b: "set (url_statuses (db ?w3) jid ?u) \<subseteq> {''completed''}"
      using url_statuses_update [where now = "db_clock e (tick ?w1)" and jid = jid and u = ?u
          and st = "''completed''"] by simp
    from res a b have "\<exists>w'. ?R = Continue (completed + 1) failed
                       (data @ [(competitor_name c, ?u, p, q)]) w' \<and>
                   persisted_steps (db w') jid = Some (completed + 1) \<and>
                   set (url_statuses (db w') jid ?u) \<subseteq> {''completed''}" by blast
    with CacheHit show ?thesis by simp
  next
    case CacheMiss
    show ?thesis
    proof (cases "all_attempts_fail e cfg i")
      case False
      from scrape_attempts_some [OF False, where jid = jid and c = c and w = ?w1] obtain ipath tpath w2 where
        sa: "scrape_attempts e cfg jid i c 1 ?n ?w1 = (Some (ipath, tpath), w2)" by blast
      let ?w3 = "job_update_progress e jid (completed + 1) w2"
      note res = resolve_competitor_scraped [OF CacheMiss sa, where comps = comps
        and completed = completed and failed = failed and data = data]
      from scrape_attempts_frame [where e = e and cfg = cfg and jid = jid and i = i and c = c
          and a = 1 and n = ?n and w = ?w1 and jid' = jid] sa j1
      have "lookup_job (db w2) jid = Some j" by simp
      then have a: "persisted_steps (db ?w3) jid = Some (completed + 1)"
        by (simp add: persisted_steps_progress)
      from scrape_attempts_rows [where e = e and cfg = cfg and jid = jid and i = i and c = c
          and a = 1 and n = ?n and w = ?w1] sa
      have "\<forall>r \<in> set (job_competitor_rows (db w2) jid).
              competitor_url r = ?u \<longrightarrow> jc_status r = ''completed''" by simp
      then have b: "set (url_statuses (db ?w3) jid ?u) \<subseteq> {''completed''}"
        by (auto simp: url_statuses_def)
      from res a b have "\<exists>ipath tpath w'. ?R = Continue (completed + 1) failed
                       (data @ [(competitor_name c, ?u, ipath, tpath)]) w' \<and>
                   persisted_steps (db w') jid = Some (completed + 1) \<and>
                   set (url_statuses (db w') jid ?u) \<subseteq> {''completed''}" by blast
      with CacheMiss False show ?thesis by simp
    next
      case True
      let ?w2 = "?w1\<lparr>trace := trace ?w1 @ map (ScraperRun i) [1..<1 + ?n]\<rparr>"
      let ?msg = "Some (''Scraping failed after '' @ str_int (scraper_max_retries cfg) @
                        '' retries'')"
      let ?w3 = "job_update_competitor e jid ?u ''failed'' None None ?msg ?w2"
      have sa: "scrape_attempts e cfg jid i c 1 ?n ?w1 = (None, ?w2)"
        by (rule scrape_attempts_none [OF True])
      have j3: "lookup_job (db ?w3) jid = Some j" using job(1) by simp
      have u3: "set (url_statuses (db ?w3) jid ?u) \<subseteq> {''failed''}"
        using url_statuses_update [where now = "db_clock e (tick ?w2)" and jid = jid and u = ?u
            and st = "''failed''"] by simp
      show ?thesis
      proof (cases "failed + 1 < 2")
        case lt: True
        let ?w4 = "job_update_progress e jid (completed + 1) ?w3"
        from lt have "\<not> 2 \<le> failed + 1" by simp
        note res = resolve_competitor_failed [OF CacheMiss sa this, where comps = comps
          and completed = completed and data = data]
        have a: "persisted_steps (db ?w4) jid = Some (completed + 1)"
          using j3 by (simp add: persisted_steps_progress)
        have b: "set (url_statuses (db ?w4) jid ?u) \<subseteq> {''failed''}" using u3 by simp
        from res a b have "\<exists>w'. ?R = Continue (completed + 1) (failed + 1) data w' \<and>
                        persisted_steps (db w') jid = Some (completed + 1) \<and>
                        set (url_statuses (db w') jid ?u) \<subseteq> {''failed''}" by blast
        with CacheMiss True lt show ?thesis by simp
      next
        case ge: False
        let ?w4 = "mark_aborted e jid (drop i comps) ?w3"
        let ?w5 = "job_update_status e jid ''failed'' None
                     (Some (''Aborting: '' @ str_nat (failed + 1) @
                            '' competitors failed (threshold: 2)'')) ?w4"
        from ge have "2 \<le> failed + 1" by simp
        note res = resolve_competitor_abort [OF CacheMiss sa this, where comps = comps
          and completed = completed and data = data]
        have j4: "lookup_job (db ?w4) jid = Some j" using j3 by (simp only: mark_aborted_frame)
        then have j5: "lookup_job (db ?w5) jid =
            Some (update_status_row (db_clock e (tick ?w4)) ''failed'' None
                    (Some (''Aborting: '' @ str_nat (failed + 1) @
                            '' competitors failed (threshold: 2)'')) j)"
          by (simp add: update_status_lookup)
        then have a: "persisted_steps (db ?w5) jid = Some completed"
          using job(2) by (simp add: persisted_steps_def update_status_row_def)
        from j5 have s: "\<exists>j'. lookup_job (db ?w5) jid = Some j' \<and> status j' = ''failed''"
          by (simp add: update_status_row_def)
        have b: "set (url_statuses (db ?w5) jid ?u) \<subseteq>
                   {if ?u \<in> competitor_url ` set (drop i comps) then ''aborted'' else ''failed''}"
        proof
          fix x
          assume "x \<in> set (url_statuses (db ?w5) jid ?u)"
          then obtain r where r: "r \<in> set (job_competitor_rows (db ?w4) jid)"
            "competitor_url r = ?u" "x = jc_status r"
            by (auto simp: url_statuses_def)
          from mark_aborted_rows_cases [OF r(1)]
          show "x \<in> {if ?u \<in> competitor_url ` set (drop i comps)
                      then ''aborted'' else ''failed''}"
          proof
            assume "competitor_url r \<in> competitor_url ` set (drop i comps) \<and>
                    jc_status r = ''aborted'' \<and>
                    jc_error_message r = Some ''Job aborted due to multiple failures''"
            with r(2,3) show ?thesis by simp
          next
            assume n: "competitor_url r \<notin> competitor_url ` set (drop i comps) \<and>
                       r \<in> set (job_competitor_rows (db ?w3) jid)"
            with r(2) have "jc_status r \<in> set (url_statuses (db ?w3) jid ?u)"
              by (auto simp: url_statuses_def)
            with u3 have "jc_status r = ''failed''" by blast
            with n r(2,3) show ?thesis by simp
          qed
        qed
        from res a s b have "\<exists>w'. ?R = Abort w' \<and>
                        persisted_steps (db w') jid = Some completed \<and>
                        (\<exists>j'. lookup_job (db w') jid = Some j' \<and> status j' = ''failed'') \<and>
                        set (url_statuses (db w') jid ?u) \<subseteq>
                          {if ?u \<in> competitor_url ` set (drop i comps)
                           then ''aborted'' else ''failed''}" by blast
        with CacheMiss True ge show ?thesis by simp
      qed
    qed
  qed
qed

text \<open>
  Claim C3, as the code has it. The job exists and its persisted \<^verbatim>\<open>completed_steps\<close>
  equals the local counter \<open>completed\<close>.

  One iteration of the loop, for competitor \<open>c\<close> at position \<open>i\<close>, with \<open>failed\<close>
  competitors failed so far:
  \<^item> the cache lookup raises: the iteration raises, and nothing is counted;
  \<^item> the cache has a valid entry whose files exist: the rows of the competitor's URL are
    \<^verbatim>\<open>completed\<close>, the loop goes on with the same \<open>failed\<close>, and the persisted
    \<^verbatim>\<open>completed_steps\<close> is \<open>completed + 1\<close>;
  \<^item> no usable cache entry and some scraper attempt succeeds: the same;
  \<^item> no usable cache entry, every attempt fails and this is the first failure
    (\<open>failed + 1 < 2\<close>): the rows are \<^verbatim>\<open>failed\<close>, the loop goes on with \<open>failed + 1\<close>,
    and the persisted \<^verbatim>\<open>completed_steps\<close> is \<open>completed + 1\<close>;
  \<^item> no usable cache entry, every attempt fails and a competitor has failed before: the
    iteration ends the job, which is \<^verbatim>\<open>failed\<close>; the rows are \<^verbatim>\<open>failed\<close> (or
    \<^verbatim>\<open>aborted\<close>, if the URL also belongs to a later competitor); and the persisted
    \<^verbatim>\<open>completed_steps\<close> is still \<open>completed\<close>.

  The whole loop, as \<^verbatim>\<open>process_job\<close> starts it (position 1, no failure yet), on a job
  whose rows have distinct URLs and are all \<^verbatim>\<open>pending\<close>, when no collaborator has been
  called yet: the persisted \<^verbatim>\<open>completed_steps\<close> grows by the number of rows that end
  \<^verbatim>\<open>completed\<close> or \<^verbatim>\<open>failed\<close>, less 1 when the loop ends by the abort rule, which
  happens with exactly two rows \<^verbatim>\<open>failed\<close>; otherwise at most one row is
  \<^verbatim>\<open>failed\<close>.
\<close>

theorem competitor_steps:
  assumes "lookup_job (db w) jid = Some j" and "completed_steps j = completed"
  shows "(case cache_lookup e i (competitor_url c) w of
           CacheRaise x \<Rightarrow>
             resolve_competitor e cfg jid comps i c completed failed data w =
               Raise x (w\<lparr>tick := tick w + 1\<rparr>)
         | CacheHit p q \<Rightarrow>
             (\<exists>w'. resolve_competitor e cfg jid comps i c completed failed data w =
                     Continue (completed + 1) failed
                       (data @ [(competitor_name c, competitor_url c, p, q)]) w' \<and>
                   persisted_steps (db w') jid = Some (completed + 1) \<and>
                   set (url_statuses (db w') jid (competitor_url c)) \<subseteq> {''completed''})
         | CacheMiss \<Rightarrow>
             (if \<not> all_attempts_fail e cfg i
              then \<exists>ipath tpath w'.
                     resolve_competitor e cfg jid comps i c completed failed data w =
                       Continue (completed + 1) failed
                         (data @ [(competitor_name c, competitor_url c, ipath, tpath)]) w' \<and>
                     persisted_steps (db w') jid = Some (completed + 1) \<and>
                     set (url_statuses (db w') jid (competitor_url c)) \<subseteq> {''completed''}
              else if failed + 1 < 2
              then \<exists>w'. resolve_competitor e cfg jid comps i c completed failed data w =
                          Continue (completed + 1) (failed + 1) data w' \<and>
                        persisted_steps (db w') jid = Some (completed + 1) \<and>
                        set (url_statuses (db w') jid (competitor_url c)) \<subseteq> {''failed''}
              else \<exists>w'. resolve_competitor e cfg jid comps i c completed failed data w =
                          Abort w' \<and>
                        persisted_steps (db w') jid = Some completed \<and>
                        (\<exists>j'. lookup_job (db w') jid = Some j' \<and> status j' = ''failed'') \<and>
                        set (url_statuses (db w') jid (competitor_url c)) \<subseteq>
                          {if competitor_url c \<in> competitor_url ` set (drop i comps)
                           then ''aborted'' else ''failed''})) \<and>
         (comps = job_competitor_rows (db w) jid \<and> distinct (map competitor_url comps) \<and>
          set (statuses (db w) jid) \<subseteq> {''pending''} \<and> filter is_call (trace w) = [] \<longrightarrow>
          (case competitor_loop e cfg jid comps 1 comps completed 0 [] w of
             LoopDone c' d' w' \<Rightarrow>
               c' = completed + int (length comps) \<and>
               persisted_steps (db w') jid = Some c' \<and>
               resolved (statuses (db w') jid) = length comps \<and>
               count_list (statuses (db w') jid) ''failed'' \<le> 1
           | LoopAborted w' \<Rightarrow>
               persisted_steps (db w') jid =
                 Some (completed + int (resolved (statuses (db w') jid)) - 1) \<and>
               count_list (statuses (db w') jid) ''failed'' = 2
           | LoopRaised x w' \<Rightarrow>
               persisted_steps (db w') jid =
                 Some (completed + int (resolved (statuses (db w') jid))) \<and>
               count_list (statuses (db w') jid) ''failed'' \<le> 1))"
proof (intro conjI impI)
  show "case cache_lookup e i (competitor_url c) w of
           CacheRaise x \<Rightarrow>
             resolve_competitor e cfg jid comps i c completed failed data w =
               Raise x (w\<lparr>tick := tick w + 1\<rparr>)
         | CacheHit p q \<Rightarrow>
             (\<exists>w'. resolve_competitor e cfg jid comps i c completed failed data w =
                     Continue (completed + 1) failed
                       (data @ [(competitor_name c, competitor_url c, p, q)]) w' \<and>
                   persisted_steps (db w') jid = Some (completed + 1) \<and>
                   set (url_statuses (db w') jid (competitor_url c)) \<subseteq> {''completed''})
         | CacheMiss \<Rightarrow>
             (if \<not> all_attempts_fail e cfg i
              then \<exists>ipath tpath w'.
                     resolve_competitor e cfg jid comps i c completed failed data w =
                       Continue (completed + 1) failed
                         (data @ [(competitor_name c, competitor_url c, ipath, tpath)]) w' \<and>
                     persisted_steps (db w') jid = Some (completed + 1) \<and>
                     set (url_statuses (db w') jid (competitor_url c)) \<subseteq> {''completed''}
              else if failed + 1 < 2
              then \<exists>w'. resolve_competitor e cfg jid comps i c completed failed data w =
                          Continue (completed + 1) (failed + 1) data w' \<and>
                        persisted_steps (db w') jid = Some (completed + 1) \<and>
                        set (url_statuses (db w') jid (competitor_url c)) \<subseteq> {''failed''}
              else \<exists>w'. resolve_competitor e cfg jid comps i c completed failed data w =
                          Abort w' \<and>
                        persisted_steps (db w') jid = Some completed \<and>
                        (\<exists>j'. lookup_job (db w') jid = Some j' \<and> status j' = ''failed'') \<and>
                        set (url_statuses (db w') jid (competitor_url c)) \<subseteq>
                          {if competitor_url c \<in> competitor_url ` set (drop i comps)
                           then ''aborted'' else ''failed''})"
    by (rule resolve_competitor_outcomes [OF assms])
next
  assume "comps = job_competitor_rows (db w) jid \<and> distinct (map competitor_url comps) \<and>
          set (statuses (db w) jid) \<subseteq> {''pending''} \<and> filter is_call (trace w) = []"
  then have h: "comps = job_competitor_rows (db w) jid" "distinct (map competitor_url comps)"
    "set (statuses (db w) jid) \<subseteq> {''pending''}" "filter is_call (trace w) = []" by blast+
  show "case competitor_loop e cfg jid comps 1 comps completed 0 [] w of
             LoopDone c' d' w' \<Rightarrow>
               c' = completed + int (length comps) \<and>
               persisted_steps (db w') jid = Some c' \<and>
               resolved (statuses (db w') jid) = length comps \<and>
               count_list (statuses (db w') jid) ''failed'' \<le> 1
           | LoopAborted w' \<Rightarrow>
               persisted_steps (db w') jid =
                 Some (completed + int (resolved (statuses (db w') jid)) - 1) \<and>
               count_list (statuses (db w') jid) ''failed'' = 2
           | LoopRaised x w' \<Rightarrow>
               persisted_steps (db w') jid =
                 Some (completed + int (resolved (statuses (db w') jid))) \<and>
               count_list (statuses (db w') jid) ''failed'' \<le> 1"
    by (rule competitor_loop_totals [OF assms h])
qed

text \<open>
  The job \<^verbatim>\<open>job_3\<close> with a scraper that works for the second competitor only. The first
  competitor fails and is counted (one step, one failure, the loop goes on); the loop ends by
  the abort rule at the third competitor, with three competitors resolved and two steps
  persisted.
\<close>

theorem competitor_steps_witness:
  "lookup_job (db (start store_three)) ''job_3'' = Some (hd (jobs store_three)) \<and>
   completed_steps (hd (jobs store_three)) = 0 \<and>
   cache_lookup env_second_only 1 (competitor_url (hd (job_competitors store_three)))
     (start store_three) = CacheMiss \<and>
   all_attempts_fail env_second_only default_config 1 \<and>
   (case resolve_competitor env_second_only default_config ''job_3''
           (job_competitors store_three) 1 (hd (job_competitors store_three)) 0 0 []
           (start store_three) of
      Continue completed' failed' data' w' \<Rightarrow>
        completed' = 1 \<and> failed' = 1 \<and> data' = [] \<and>
        persisted_steps (db w') ''job_3'' = Some 1 \<and>
        statuses (db w') ''job_3'' = [''failed'', ''pending'', ''pending'']
    | Abort w' \<Rightarrow> False
    | Raise x w' \<Rightarrow> False) \<and>
   job_competitors store_three = job_competitor_rows (db (start store_three)) ''job_3'' \<and>
   distinct (map competitor_url (job_competitors store_three)) \<and>
   statuses (db (start store_three)) ''job_3'' = [''pending'', ''pending'', ''pending''] \<and>
   filter is_call (trace (start store_three)) = [] \<and>
   (case competitor_loop env_second_only default_config ''job_3''
           (job_competitors store_three) 1 (job_competitors store_three) 0 0 []
           (start store_three) of
      LoopDone c' d' w' \<Rightarrow> False
    | LoopAborted w' \<Rightarrow>
        statuses (db w') ''job_3'' = [''failed'', ''completed'', ''failed''] \<and>
        resolved (statuses (db w') ''job_3'') = 3 \<and>
        persisted_steps (db w') ''job_3'' = Some 2
    | LoopRaised x w' \<Rightarrow> False)"
proof -
  have 1: "lookup_job (db (start store_three)) ''job_3'' = Some (hd (jobs store_three))"
    by code_simp
  have 2: "completed_steps (hd (jobs store_three)) = 0" by code_simp
  have g: ?thesis by code_simp
  from competitor_steps [OF 1 2, where e = env_second_only and cfg = default_config
      and comps = "job_competitors store_three" and i = 1
      and c = "hd (job_competitors store_three)" and failed = 0 and data = "[]"]
  show ?thesis using g by -
qed

text \<open>
  Claim C3 as stated fails for the competitor whose failure triggers the abort rule. With a
  scraper that always fails, the first two of three competitors end \<^verbatim>\<open>failed\<close> and the
  third \<^verbatim>\<open>aborted\<close>, yet \<^verbatim>\<open>completed_steps\<close> goes from 1 (the client's data) to 2 only:
  \<^verbatim>\<open>process_job\<close> returns before the second failure is counted.
\<close>

theorem abort_skips_step_of_second_failure:
  "map jc_status
     (job_competitors
        (db (snd (process_job env_scraper_down default_config ''job_3'' (start store_three))))) =
     [''failed'', ''failed'', ''aborted''] \<and>
   map observed_steps
     (trace (snd (process_job env_scraper_down default_config ''job_3'' (start store_three)))) =
   [Some (''processing'', 0, 7), Some (''processing'', 0, 7), Some (''processing'', 1, 7),
    None, None, Some (''processing'', 2, 7), None, None, Some (''failed'', 2, 7)]"
  by code_simp

text \<open>The end of a run: by the abort rule, or not.\<close>

lemma unaborted_later:
  assumes inv: "loop_inv e cfg jid urls c0 k f w0" and later: "later_phase w0 w'"
  shows "unaborted e cfg jid (length urls) w'"
proof -
  from inv obtain ds where
    ds: "statuses (db w0) jid = ds @ replicate (length urls - k) ''pending''" "length ds = k"
      "count_list ds ''failed'' = f" "history_ok e cfg ds (trace w0)"
    unfolding loop_inv_def by blast
  from inv have f: "f \<le> 1" and k: "k \<le> length urls" by (simp_all add: loop_inv_def)
  from later have "job_competitors (db w') = job_competitors (db w0)"
    by (simp add: later_phase_def)
  then have "statuses (db w') jid = statuses (db w0) jid"
    by (simp add: statuses_def job_competitor_rows_def)
  with ds(1,2) have a: "statuses (db w') jid = ds @ replicate (length urls - length ds) ''pending''"
    by simp
  from later have b: "\<forall>p a. ScraperRun p a \<in> set (trace w') \<longleftrightarrow> ScraperRun p a \<in> set (trace w0)"
    by (simp add: later_phase_def)
  from a b ds(2,3,4) f k show ?thesis
    unfolding unaborted_def
    by (intro exI [of _ ds] exI [of _ "trace w0"]) simp
qed

lemma unaborted_facts:
  assumes "unaborted e cfg jid n w'"
  shows "length (statuses (db w') jid) = n"
    and "count_list (statuses (db w') jid) ''failed'' \<le> 1"
    and "''aborted'' \<notin> set (statuses (db w') jid)"
    and "\<forall>p < n. statuses (db w') jid ! p = ''failed'' \<longrightarrow> all_attempts_fail e cfg (Suc p)"
    and "\<forall>p < n. statuses (db w') jid ! p = ''completed'' \<and> all_attempts_fail e cfg (Suc p) \<longrightarrow>
           (\<forall>a. ScraperRun (Suc p) a \<notin> set (trace w'))"
proof -
  let ?sts = "statuses (db w') jid"
  from assms obtain ds evs where
    u: "?sts = ds @ replicate (n - length ds) ''pending''" "length ds \<le> n"
      "count_list ds ''failed'' \<le> 1" "history_ok e cfg ds evs"
      "\<forall>p a. ScraperRun p a \<in> set (trace w') \<longleftrightarrow> ScraperRun p a \<in> set evs"
    unfolding unaborted_def by blast
  from u(4) have sub: "set ds \<subseteq> {''completed'', ''failed''}"
    and h2: "\<And>p. p < length ds \<Longrightarrow> ds ! p = ''failed'' \<Longrightarrow> all_attempts_fail e cfg (Suc p)"
    and h3: "\<And>p a. p < length ds \<Longrightarrow> ds ! p = ''completed'' \<Longrightarrow>
               all_attempts_fail e cfg (Suc p) \<Longrightarrow> ScraperRun (Suc p) a \<notin> set evs"
    unfolding history_ok_def by blast+
  show "length ?sts = n" unfolding u(1) using u(2) by simp
  show "count_list ?sts ''failed'' \<le> 1"
    unfolding u(1) using u(3) by (simp add: count_list_replicate_other)
  show "''aborted'' \<notin> set ?sts" unfolding u(1) using sub by auto
  have nth: "p < length ds \<and> ds ! p = ?sts ! p"
    if "p < n" and "?sts ! p = ''failed'' \<or> ?sts ! p = ''completed''" for p
  proof (cases "p < length ds")
    case True
    then show ?thesis unfolding u(1) by (simp add: nth_append)
  next
    case False
    with that(1) have "(ds @ replicate (n - length ds) ''pending'') ! p = ''pending''"
      by (simp add: nth_append)
    with that(2) show ?thesis unfolding u(1) by simp
  qed
  show "\<forall>p < n. ?sts ! p = ''failed'' \<longrightarrow> all_attempts_fail e cfg (Suc p)"
  proof (intro allI impI)
    fix p
    assume p: "p < n" and s: "?sts ! p = ''failed''"
    from nth [OF p] s have "p < length ds" "ds ! p = ''failed''" by simp_all
    then show "all_attempts_fail e cfg (Suc p)" by (rule h2)
  qed
  show "\<forall>p < n. ?sts ! p = ''completed'' \<and> all_attempts_fail e cfg (Suc p) \<longrightarrow>
           (\<forall>a. ScraperRun (Suc p) a \<notin> set (trace w'))"
  proof (intro allI impI)
    fix p a
    assume p: "p < n" and s: "?sts ! p = ''completed'' \<and> all_attempts_fail e cfg (Suc p)"
    from nth [OF p] s have "p < length ds" "ds ! p = ''completed''" by simp_all
    from h3 [OF this] s have "ScraperRun (Suc p) a \<notin> set evs" by simp
    with u(5) show "ScraperRun (Suc p) a \<notin> set (trace w')" by simp
  qed
qed

lemma aborted_at_facts:
  assumes "aborted_at e cfg jid urls c0 k w'"
  shows "length (statuses (db w') jid) = length urls"
    and "\<forall>p < length urls. statuses (db w') jid ! p = ''failed'' \<longrightarrow>
           all_attempts_fail e cfg (Suc p)"
    and "\<forall>p < length urls. statuses (db w') jid ! p = ''completed'' \<and>
           all_attempts_fail e cfg (Suc p) \<longrightarrow> (\<forall>a. ScraperRun (Suc p) a \<notin> set (trace w'))"
    and "k < length urls" and "statuses (db w') jid ! k = ''failed''"
    and "set (take k (statuses (db w') jid)) \<subseteq> {''completed'', ''failed''}"
    and "drop (Suc k) (statuses (db w') jid) = replicate (length urls - Suc k) ''aborted''"
    and "drop (Suc k) (reasons (db w') jid) =
           replicate (length urls - Suc k) (Some ''Job aborted due to multiple failures'')"
    and "\<forall>p a. ScraperRun p a \<in> set (trace w') \<longrightarrow> p \<le> Suc k"
    and "AnalysisRun \<notin> set (trace w')" and "\<forall>a. EmailSend a \<notin> set (trace w')"
    and "\<exists>j'. lookup_job (db w') jid = Some j' \<and> status j' = ''failed'' \<and>
              error_message j' = Some ''Aborting: 2 competitors failed (threshold: 2)'' \<and>
              completed_steps j' = c0 + int k"
proof -
  let ?sts = "statuses (db w') jid"
  let ?n = "length urls"
  from assms obtain ds where
    ds: "?sts = (ds @ [''failed'']) @ replicate (?n - Suc k) ''aborted''" "length ds = k"
      "count_list ds ''failed'' = 1" "history_ok e cfg (ds @ [''failed'']) (trace w')"
    unfolding aborted_at_def by blast
  from assms show k: "k < ?n" by (simp add: aborted_at_def)
  from assms show "drop (Suc k) (reasons (db w') jid) =
           replicate (?n - Suc k) (Some ''Job aborted due to multiple failures'')"
    by (simp add: aborted_at_def)
  from assms show "\<exists>j'. lookup_job (db w') jid = Some j' \<and> status j' = ''failed'' \<and>
              error_message j' = Some ''Aborting: 2 competitors failed (threshold: 2)'' \<and>
              completed_steps j' = c0 + int k"
    unfolding aborted_at_def by blast
  have l: "length (ds @ [''failed'']) = Suc k" using ds(2) by simp
  from ds(4) have sub: "set (ds @ [''failed'']) \<subseteq> {''completed'', ''failed''}"
    and h2: "\<And>p. p < length (ds @ [''failed'']) \<Longrightarrow> (ds @ [''failed'']) ! p = ''failed'' \<Longrightarrow>
               all_attempts_fail e cfg (Suc p)"
    and h3: "\<And>p a. p < length (ds @ [''failed'']) \<Longrightarrow> (ds @ [''failed'']) ! p = ''completed'' \<Longrightarrow>
               all_attempts_fail e cfg (Suc p) \<Longrightarrow> ScraperRun (Suc p) a \<notin> set (trace w')"
    and h4: "\<And>p a. ScraperRun p a \<in> set (trace w') \<Longrightarrow> p \<le> length (ds @ [''failed''])"
    and h5: "AnalysisRun \<notin> set (trace w')" "\<forall>a. EmailSend a \<notin> set (trace w')"
    unfolding history_ok_def by blast+
  show "length ?sts = ?n" unfolding ds(1) using ds(2) k by simp
  show "AnalysisRun \<notin> set (trace w')" by (rule h5(1))
  show "\<forall>a. EmailSend a \<notin> set (trace w')" by (rule h5(2))
  show "\<forall>p a. ScraperRun p a \<in> set (trace w') \<longrightarrow> p \<le> Suc k" using h4 l by auto
  show "?sts ! k = ''failed''" unfolding ds(1) using ds(2) by (simp add: nth_append)
  have "take k ?sts = ds" unfolding ds(1) using ds(2) by simp
  with sub show "set (take k ?sts) \<subseteq> {''completed'', ''failed''}" by auto
  show "drop (Suc k) ?sts = replicate (?n - Suc k) ''aborted''"
    unfolding ds(1) using l by simp
  have nth: "p < Suc k \<and> (ds @ [''failed'']) ! p = ?sts ! p"
    if "p < ?n" and "?sts ! p = ''failed'' \<or> ?sts ! p = ''completed''" for p
  proof (cases "p < Suc k")
    case True
    with l show ?thesis unfolding ds(1) by (simp add: nth_append)
  next
    case False
    with that(1) l
    have "((ds @ [''failed'']) @ replicate (?n - Suc k) ''aborted'') ! p = ''aborted''"
      by (simp only: nth_append) simp
    with that(2) show ?thesis unfolding ds(1) by simp
  qed
  show "\<forall>p < ?n. ?sts ! p = ''failed'' \<longrightarrow> all_attempts_fail e cfg (Suc p)"
  proof (intro allI impI)
    fix p
    assume p: "p < ?n" and s: "?sts ! p = ''failed''"
    from nth [OF p] s l have "p < length (ds @ [''failed''])"
      "(ds @ [''failed'']) ! p = ''failed''" by simp_all
    then show "all_attempts_fail e cfg (Suc p)" by (rule h2)
  qed
  show "\<forall>p < ?n. ?sts ! p = ''completed'' \<and> all_attempts_fail e cfg (Suc p) \<longrightarrow>
           (\<forall>a. ScraperRun (Suc p) a \<notin> set (trace w'))"
  proof (intro allI impI)
    fix p a
    assume p: "p < ?n" and s: "?sts ! p = ''completed'' \<and> all_attempts_fail e cfg (Suc p)"
    from nth [OF p] s l have "p < length (ds @ [''failed''])"
      "(ds @ [''failed'']) ! p = ''completed''" by simp_all
    from h3 [OF this] s show "ScraperRun (Suc p) a \<notin> set (trace w')" by simp
  qed
qed

lemma process_job_outcome:
  assumes fresh: "set (statuses (db w) jid) \<subseteq> {''pending''}"
    and d: "distinct (map competitor_url (job_competitor_rows (db w) jid))"
    and calls: "filter is_call (trace w) = []"
  shows "unaborted e cfg jid (length (job_competitor_rows (db w) jid))
           (snd (process_job e cfg jid w)) \<or>
         (\<exists>k. aborted_at e cfg jid (map competitor_url (job_competitor_rows (db w) jid)) 1 k
                 (snd (process_job e cfg jid w)) \<and>
               \<not> fst (process_job e cfg jid w))"
proof (cases "lookup_job (db w) jid")
  case None
  let ?n = "length (job_competitor_rows (db w) jid)"
  have len: "length (statuses (db w) jid) = ?n" by (simp add: statuses_def)
  from all_pending [OF fresh] len
  have "statuses (db w) jid = [] @ replicate (?n - length ([] :: string list)) ''pending''"
    by simp
  moreover have "history_ok e cfg [] (trace w)" using calls by (rule history_ok_start)
  ultimately have "unaborted e cfg jid ?n (w\<lparr>tick := tick w + 1\<rparr>)"
    unfolding unaborted_def
    by (intro exI [of _ "[]"] exI [of _ "trace w"]) simp
  with None show ?thesis by (simp add: process_job_def)
next
  case (Some j)
  let ?comps = "job_competitor_rows (db w) jid"
  let ?urls = "map competitor_url ?comps"
  let ?w0 = "w\<lparr>tick := tick w + 1\<rparr>"
  let ?w1 = "job_update_status e jid ''processing'' (Some ''Starting'') None ?w0"
  let ?w2 = "job_update_status e jid ''processing'' (Some ''Saving client data'') None ?w1"
  let ?w3 = "job_update_progress e jid 1 ?w2"
  let ?j1 = "update_status_row (db_clock e (tick ?w0)) ''processing'' (Some ''Starting'') None j"
  let ?j2 = "update_status_row (db_clock e (tick ?w1)) ''processing''
               (Some ''Saving client data'') None ?j1"
  let ?j3 = "update_progress_row (db_clock e (tick ?w2)) 1 ?j2"
  have n: "length ?urls = length ?comps" by simp
  from loop_inv_fresh [OF Some refl fresh calls]
  have "loop_inv e cfg jid ?urls (completed_steps j) 0 0 w" .
  then have inv0: "loop_inv e cfg jid ?urls (completed_steps j) 0 0 ?w0" by (rule loop_inv_tick)
  have l1: "lookup_job (db ?w1) jid = Some ?j1" using Some by (simp add: update_status_lookup)
  then have l2: "lookup_job (db ?w2) jid = Some ?j2" by (simp add: update_status_lookup)
  then have l3: "lookup_job (db ?w3) jid = Some ?j3" by (simp add: update_progress_lookup)
  have inv1: "loop_inv e cfg jid ?urls (completed_steps ?j1) 0 0 ?w1"
    by (rule loop_inv_observe [OF inv0 _ l1 refl]) simp_all
  have inv2: "loop_inv e cfg jid ?urls (completed_steps ?j2) 0 0 ?w2"
    by (rule loop_inv_observe [OF inv1 _ l2 refl]) simp_all
  have "loop_inv e cfg jid ?urls (completed_steps ?j3) 0 0 ?w3"
    by (rule loop_inv_observe [OF inv2 _ l3 refl]) simp_all
  then have inv3: "loop_inv e cfg jid ?urls 1 0 0 ?w3" by (simp add: update_progress_row_def)
  have early1: "unaborted e cfg jid (length ?comps) (snd (fail_job e jid msg ?w1))" for msg
    using unaborted_later [OF inv1 later_phase_fail_job] by simp
  have early2: "unaborted e cfg jid (length ?comps) (snd (fail_job e jid msg ?w2))" for msg
    using unaborted_later [OF inv2 later_phase_fail_job] by simp
  let ?L = "competitor_loop e cfg jid ?comps 1 ?comps 1 0 [] ?w3"
  from competitor_loop_inv [OF d refl inv3, where data = "[]"]
  have loop: "case ?L of
           LoopDone c' d' w' \<Rightarrow>
             c' = 1 + int (length ?urls) \<and> (\<exists>f'. loop_inv e cfg jid ?urls 1 (length ?urls) f' w')
         | LoopAborted w' \<Rightarrow> (\<exists>k' < length ?urls. aborted_at e cfg jid ?urls 1 k' w')
         | LoopRaised x w' \<Rightarrow>
             (\<exists>k' f'. k' < length ?urls \<and> loop_inv e cfg jid ?urls 1 k' f' w')"
    by simp
  have after: "unaborted e cfg jid (length ?comps) (snd (after_loop e cfg jid ?L)) \<or>
         (\<exists>k. aborted_at e cfg jid ?urls 1 k (snd (after_loop e cfg jid ?L)) \<and>
               \<not> fst (after_loop e cfg jid ?L))"
  proof (cases ?L)
    case (LoopDone c' d' w')
    with loop obtain f' where "loop_inv e cfg jid ?urls 1 (length ?urls) f' w'" by auto
    from unaborted_later [OF this later_phase_after_loop(1)] LoopDone n
    show ?thesis by simp
  next
    case (LoopAborted w')
    with loop obtain k' where "aborted_at e cfg jid ?urls 1 k' w'" by auto
    with LoopAborted show ?thesis by auto
  next
    case (LoopRaised x w')
    with loop obtain k' f' where "loop_inv e cfg jid ?urls 1 k' f' w'" by auto
    from unaborted_later [OF this later_phase_after_loop(2)] LoopRaised n
    show ?thesis by simp
  qed
  show ?thesis
  proof (cases "prepare_data_folder e jid (data_folder j)")
    case (Some x)
    with \<open>lookup_job (db w) jid = Some j\<close> early1 show ?thesis
      by (simp add: process_job_def Let_def)
  next
    case None
    note folder = None
    show ?thesis
    proof (cases "inventory_error e (convert_metadata (metadata j))")
      case (Some x)
      with \<open>lookup_job (db w) jid = Some j\<close> folder early2 show ?thesis
        by (simp add: process_job_def Let_def)
    next
      case None
      note inventory = None
      show ?thesis
      proof (cases "tools_error e (convert_metadata (metadata j))")
        case (Some x)
        with \<open>lookup_job (db w) jid = Some j\<close> folder inventory early2 show ?thesis
          by (simp add: process_job_def Let_def)
      next
        case None
        with \<open>lookup_job (db w) jid = Some j\<close> folder inventory after show ?thesis
          by (simp add: process_job_def Let_def)
      qed
    qed
  qed
qed

text \<open>
  Claim C5. Take a job whose competitor rows have distinct URLs (one row per competitor URL)
  and are all \<^verbatim>\<open>pending\<close>, in a run that has called no collaborator yet, and run
  \<^verbatim>\<open>process_job\<close>, whatever the collaborators and the cache do. Afterwards, with
  \<open>sts\<close> the statuses of the \<open>n\<close> rows in order:
  \<^item> at most two rows are \<^verbatim>\<open>failed\<close>;
  \<^item> a row is \<^verbatim>\<open>failed\<close> only if every scraper attempt on that competitor fails, and a
    competitor whose attempts all fail is \<^verbatim>\<open>completed\<close> only if the scraper was never
    called for it (it was served from the cache);
  \<^item> while fewer than two rows are \<^verbatim>\<open>failed\<close>, no row is \<^verbatim>\<open>aborted\<close>;
  \<^item> when two rows are \<^verbatim>\<open>failed\<close>, \<^verbatim>\<open>process_job\<close> returns \<^verbatim>\<open>False\<close>; the second
    failure is at some position \<open>k\<close> (from 0), the rows before it are \<^verbatim>\<open>completed\<close> or
    \<^verbatim>\<open>failed\<close>, and every row after it is \<^verbatim>\<open>aborted\<close> with the reason
    \<^verbatim>\<open>Job aborted due to multiple failures\<close>; the scraper was called for no competitor
    after number \<open>k + 1\<close>; the job is \<^verbatim>\<open>failed\<close> with the message
    \<^verbatim>\<open>Aborting: 2 competitors failed (threshold: 2)\<close> and \<open>1 + k\<close> completed steps
    (the client's data and the competitors before the second failure: no later phase was
    counted); and the analysis and the email were never called.
\<close>

theorem abort_rule:
  assumes "set (statuses (db w) jid) \<subseteq> {''pending''}"
    and "distinct (map competitor_url (job_competitor_rows (db w) jid))"
    and "filter is_call (trace w) = []"
  shows "let n = length (job_competitor_rows (db w) jid);
             ok = fst (process_job e cfg jid w);
             w' = snd (process_job e cfg jid w);
             sts = statuses (db w') jid
         in length sts = n \<and>
            count_list sts ''failed'' \<le> 2 \<and>
            (\<forall>p < n. sts ! p = ''failed'' \<longrightarrow> all_attempts_fail e cfg (Suc p)) \<and>
            (\<forall>p < n. sts ! p = ''completed'' \<and> all_attempts_fail e cfg (Suc p) \<longrightarrow>
                      (\<forall>a. ScraperRun (Suc p) a \<notin> set (trace w'))) \<and>
            (count_list sts ''failed'' < 2 \<longrightarrow> ''aborted'' \<notin> set sts) \<and>
            (count_list sts ''failed'' = 2 \<longrightarrow>
               \<not> ok \<and>
               (\<exists>k < n. sts ! k = ''failed'' \<and>
                  set (take k sts) \<subseteq> {''completed'', ''failed''} \<and>
                  drop (Suc k) sts = replicate (n - Suc k) ''aborted'' \<and>
                  drop (Suc k) (reasons (db w') jid) =
                    replicate (n - Suc k) (Some ''Job aborted due to multiple failures'') \<and>
                  (\<forall>p a. ScraperRun p a \<in> set (trace w') \<longrightarrow> p \<le> Suc k) \<and>
                  (\<exists>j'. lookup_job (db w') jid = Some j' \<and> status j' = ''failed'' \<and>
                     error_message j' = Some ''Aborting: 2 competitors failed (threshold: 2)'' \<and>
                     completed_steps j' = 1 + int k)) \<and>
               AnalysisRun \<notin> set (trace w') \<and> (\<forall>a. EmailSend a \<notin> set (trace w')))"
proof -
  let ?n = "length (job_competitor_rows (db w) jid)"
  let ?urls = "map competitor_url (job_competitor_rows (db w) jid)"
  let ?ok = "fst (process_job e cfg jid w)"
  let ?w' = "snd (process_job e cfg jid w)"
  let ?sts = "statuses (db ?w') jid"
  have n: "length ?urls = ?n" by simp
  from process_job_outcome [OF assms, of e cfg]
  show ?thesis
  proof
    assume u: "unaborted e cfg jid ?n ?w'"
    note f = unaborted_facts [OF u]
    from f(2) have "count_list ?sts ''failed'' \<le> 2" "count_list ?sts ''failed'' \<noteq> 2" by simp_all
    with f show ?thesis unfolding Let_def by blast
  next
    assume "\<exists>k. aborted_at e cfg jid ?urls 1 k ?w' \<and> \<not> ?ok"
    then obtain k where a: "aborted_at e cfg jid ?urls 1 k ?w'" and ok: "\<not> ?ok" by blast
    note f = aborted_at_facts [OF a, unfolded n]
    note c = aborted_at_summary(3) [OF a]
    from f(4-9,12) have ex: "\<exists>k < ?n. ?sts ! k = ''failed'' \<and>
                  set (take k ?sts) \<subseteq> {''completed'', ''failed''} \<and>
                  drop (Suc k) ?sts = replicate (?n - Suc k) ''aborted'' \<and>
                  drop (Suc k) (reasons (db ?w') jid) =
                    replicate (?n - Suc k) (Some ''Job aborted due to multiple failures'') \<and>
                  (\<forall>p a. ScraperRun p a \<in> set (trace ?w') \<longrightarrow> p \<le> Suc k) \<and>
                  (\<exists>j'. lookup_job (db ?w') jid = Some j' \<and> status j' = ''failed'' \<and>
                     error_message j' = Some ''Aborting: 2 competitors failed (threshold: 2)'' \<and>
                     completed_steps j' = 1 + int k)" by blast
    from c have c2: "count_list ?sts ''failed'' \<le> 2" "\<not> count_list ?sts ''failed'' < 2"
      by simp_all
    from f(1,2,3,10,11) ex ok c2 show ?thesis unfolding Let_def by blast
  qed
qed

text \<open>
  The job \<^verbatim>\<open>job_3\<close>. With a scraper that works for the second competitor only, the
  failures of the first and the third competitor add up: the run ends by the abort rule
  although a success lies between them. With a scraper that always fails, the third
  competitor is \<^verbatim>\<open>aborted\<close> without an attempt.
\<close>

theorem abort_rule_witness:
  "statuses (db (start store_three)) ''job_3'' = [''pending'', ''pending'', ''pending''] \<and>
   distinct (map competitor_url (job_competitor_rows (db (start store_three)) ''job_3'')) \<and>
   filter is_call (trace (start store_three)) = [] \<and>
   map (all_attempts_fail env_second_only default_config) [1, 2, 3] = [True, False, True] \<and>
   process_job env_second_only default_config ''job_3'' (start store_three) =
     (False, snd (process_job env_second_only default_config ''job_3'' (start store_three))) \<and>
   statuses (db (snd (process_job env_second_only default_config ''job_3'' (start store_three))))
     ''job_3'' = [''failed'', ''completed'', ''failed''] \<and>
   map status
     (jobs (db (snd (process_job env_second_only default_config ''job_3'' (start store_three))))) =
     [''failed''] \<and>
   map error_message
     (jobs (db (snd (process_job env_second_only default_config ''job_3'' (start store_three))))) =
     [Some ''Aborting: 2 competitors failed (threshold: 2)''] \<and>
   map completed_steps
     (jobs (db (snd (process_job env_second_only default_config ''job_3'' (start store_three))))) =
     [3] \<and>
   filter is_call
     (trace (snd (process_job env_second_only default_config ''job_3'' (start store_three)))) =
     [ScraperRun 1 1, ScraperRun 1 2, ScraperRun 2 1, ScraperRun 3 1, ScraperRun 3 2] \<and>
   statuses (db (snd (process_job env_scraper_down default_config ''job_3'' (start store_three))))
     ''job_3'' = [''failed'', ''failed'', ''aborted''] \<and>
   reasons (db (snd (process_job env_scraper_down default_config ''job_3'' (start store_three))))
     ''job_3'' = [Some ''Scraping failed after 2 retries'', Some ''Scraping failed after 2 retries'',
                  Some ''Job aborted due to multiple failures''] \<and>
   filter is_call
     (trace (snd (process_job env_scraper_down default_config ''job_3'' (start store_three)))) =
     [ScraperRun 1 1, ScraperRun 1 2, ScraperRun 2 1, ScraperRun 2 2]"
proof -
  have 1: "set (statuses (db (start store_three)) ''job_3'') \<subseteq> {''pending''}" by code_simp
  have 2: "distinct (map competitor_url (job_competitor_rows (db (start store_three)) ''job_3''))"
    by code_simp
  have 3: "filter is_call (trace (start store_three)) = []" by code_simp
  have g: ?thesis by code_simp
  from abort_rule [OF 1 2 3, where e = env_second_only and cfg = default_config]
  show ?thesis using g by -
qed

subsection \<open>The email phase\<close>

lemma email_attempts_all_fail:
  assumes "\<forall>k. a \<le> k \<and> k < a + n \<longrightarrow> send_email e k \<noteq> None"
  shows "email_attempts e a n w = (False, w\<lparr>trace := trace w @ map EmailSend [a..<a + n]\<rparr>)"
  using assms
proof (induction n arbitrary: a w)
  case 0
  then show ?case by simp
next
  case (Suc n)
  from Suc.prems have "send_email e a \<noteq> None" by simp
  then obtain x where x: "send_email e a = Some x" by auto
  from Suc.prems have "\<forall>k. a + 1 \<le> k \<and> k < a + 1 + n \<longrightarrow> send_email e k \<noteq> None" by simp
  from Suc.IH [OF this, of "w\<lparr>trace := trace w @ [EmailSend a]\<rparr>"]
  have "email_attempts e (a + 1) n (w\<lparr>trace := trace w @ [EmailSend a]\<rparr>) =
          (False, w\<lparr>trace := trace w @ map EmailSend (a # [a + 1..<a + 1 + n])\<rparr>)"
    by simp
  moreover have "a # [a + 1..<a + 1 + n] = [a..<a + Suc n]"
    by (simp add: upt_conv_Cons)
  ultimately show ?case using x by (simp only: email_attempts.simps option.case)
qed

lemma email_attempts_succeed:
  assumes "\<forall>k. a \<le> k \<and> k < a + m \<longrightarrow> send_email e k \<noteq> None"
    and "send_email e (a + m) = None" and "m < n"
  shows "email_attempts e a n w = (True, w\<lparr>trace := trace w @ map EmailSend [a..<a + m + 1]\<rparr>)"
  using assms
proof (induction m arbitrary: a n w)
  case 0
  then obtain n' where n: "n = Suc n'" by (cases n) auto
  from 0 show ?case unfolding n by simp
next
  case (Suc m)
  then obtain n' where n: "n = Suc n'" by (cases n) auto
  from Suc.prems have "send_email e a \<noteq> None" by simp
  then obtain x where x: "send_email e a = Some x" by auto
  from Suc.prems have 1: "\<forall>k. a + 1 \<le> k \<and> k < a + 1 + m \<longrightarrow> send_email e k \<noteq> None" by simp
  from Suc.prems have 2: "send_email e (a + 1 + m) = None" by simp
  from Suc.prems n have 3: "m < n'" by simp
  from Suc.IH [OF 1 2 3, of "w\<lparr>trace := trace w @ [EmailSend a]\<rparr>"]
  have "email_attempts e (a + 1) n' (w\<lparr>trace := trace w @ [EmailSend a]\<rparr>) =
          (True, w\<lparr>trace := trace w @ map EmailSend (a # [a + 1..<a + 1 + m + 1])\<rparr>)"
    by simp
  moreover have "a # [a + 1..<a + 1 + m + 1] = [a..<a + Suc m + 1]"
    by (simp add: upt_conv_Cons)
  ultimately show ?case using x unfolding n by (simp only: email_attempts.simps option.case)
qed

text \<open>
  Claim C9. The job exists and \<^verbatim>\<open>email_max_retries\<close> is 3. If the first \<open>k < 3\<close>
  attempts fail and attempt \<open>k + 1\<close> succeeds, the phase makes exactly \<open>k + 1\<close> attempts,
  goes on to finalize and returns \<^verbatim>\<open>True\<close> with the job \<^verbatim>\<open>completed\<close> and two more
  steps recorded. If all three attempts fail, it makes three attempts and returns
  \<^verbatim>\<open>False\<close> with the job \<^verbatim>\<open>failed\<close>, the message \<^verbatim>\<open>Email failed after 3 retries\<close>,
  no step recorded, and that update as the last event of the run.
\<close>

theorem email_phase_retries:
  assumes "lookup_job (db w) jid = Some j" and "email_max_retries cfg = 3"
  shows "(k < 3 \<and> (\<forall>a. 1 \<le> a \<and> a \<le> k \<longrightarrow> send_email e a \<noteq> None) \<and>
          send_email e (k + 1) = None \<longrightarrow>
            (\<exists>w' j'. email_phase e cfg jid completed w = (True, w') \<and>
               lookup_job (db w') jid = Some j' \<and> status j' = ''completed'' \<and>
               completed_steps j' = completed + 2 \<and>
               filter is_call (trace w') =
                 filter is_call (trace w) @ map EmailSend [1..<k + 2])) \<and>
         ((\<forall>a. 1 \<le> a \<and> a \<le> 3 \<longrightarrow> send_email e a \<noteq> None) \<longrightarrow>
            (\<exists>w' j'. email_phase e cfg jid completed w = (False, w') \<and>
               lookup_job (db w') jid = Some j' \<and> status j' = ''failed'' \<and>
               error_message j' = Some ''Email failed after 3 retries'' \<and>
               completed_steps j' = completed_steps j \<and>
               last (trace w') = Observed (Some j') \<and>
               filter is_call (trace w') =
                 filter is_call (trace w) @ map EmailSend [1..<4]))"
proof (intro conjI impI)
  let ?w1 = "job_update_status e jid ''processing'' (Some ''Sending email'') None w"
  have j1: "lookup_job (db ?w1) jid =
              Some (update_status_row (db_clock e (tick w)) ''processing''
                      (Some ''Sending email'') None j)"
    using assms(1) by (simp add: update_status_lookup)
  have n: "nat (email_max_retries cfg) = 3" using assms(2) by simp
  {
    assume a: "k < 3 \<and> (\<forall>a. 1 \<le> a \<and> a \<le> k \<longrightarrow> send_email e a \<noteq> None) \<and>
          send_email e (k + 1) = None"
    let ?w2 = "?w1\<lparr>trace := trace ?w1 @ map EmailSend [1..<1 + k + 1]\<rparr>"
    let ?w3 = "job_update_progress e jid (completed + 1) ?w2"
    let ?w4 = "job_update_status e jid ''completed'' (Some ''Completed'') None ?w3"
    let ?w5 = "job_update_progress e jid (completed + 1 + 1) ?w4"
    from a have 1: "\<forall>a. 1 \<le> a \<and> a < 1 + k \<longrightarrow> send_email e a \<noteq> None" by simp
    from a have 2: "send_email e (1 + k) = None" by simp
    from a have 3: "k < 3" by simp
    from email_attempts_succeed [OF 1 2 3, of ?w1]
    have ea: "email_attempts e 1 (nat (email_max_retries cfg)) ?w1 = (True, ?w2)"
      by (simp only: n)
    have res: "email_phase e cfg jid completed w = (True, ?w5)"
      by (simp only: email_phase_def ea finalize_phase_def prod.case bool.case)
    have "lookup_job (db ?w2) jid = lookup_job (db ?w1) jid" by simp
    with j1 obtain j5 where j5: "lookup_job (db ?w5) jid = Some j5"
      and "status j5 = ''completed''" and "completed_steps j5 = completed + 2"
      by (simp add: update_status_lookup update_progress_lookup update_status_row_def
          update_progress_row_def)
    moreover have "filter is_call (trace ?w5) =
                 filter is_call (trace w) @ map EmailSend [1..<k + 2]"
      by (simp add: add.commute)
    ultimately show "\<exists>w' j'. email_phase e cfg jid completed w = (True, w') \<and>
               lookup_job (db w') jid = Some j' \<and> status j' = ''completed'' \<and>
               completed_steps j' = completed + 2 \<and>
               filter is_call (trace w') =
                 filter is_call (trace w) @ map EmailSend [1..<k + 2]"
      using res by blast
  }
  {
    assume a: "\<forall>a. 1 \<le> a \<and> a \<le> 3 \<longrightarrow> send_email e a \<noteq> None"
    let ?w2 = "?w1\<lparr>trace := trace ?w1 @ map EmailSend [1..<1 + 3]\<rparr>"
    let ?w3 = "job_update_status e jid ''failed'' None (Some ''Email failed after 3 retries'') ?w2"
    from a have "\<forall>k. 1 \<le> k \<and> k < 1 + 3 \<longrightarrow> send_email e k \<noteq> None" by simp
    from email_attempts_all_fail [OF this, of ?w1]
    have ea: "email_attempts e 1 (nat (email_max_retries cfg)) ?w1 = (False, ?w2)"
      by (simp only: n)
    have m: "''Email failed after '' @ str_int (email_max_retries cfg) @ '' retries'' =
             ''Email failed after 3 retries''"
      using assms(2) by (simp add: str_int_def str_nat.simps)
    have res: "email_phase e cfg jid completed w = (False, ?w3)"
      by (simp only: email_phase_def ea fail_job_def prod.case bool.case m)
    have "lookup_job (db ?w2) jid = lookup_job (db ?w1) jid" by simp
    with j1 obtain j3 where j3: "lookup_job (db ?w3) jid = Some j3"
      and "status j3 = ''failed''" and "error_message j3 = Some ''Email failed after 3 retries''"
      and "completed_steps j3 = completed_steps j"
      by (simp add: update_status_lookup update_status_row_def)
    moreover have "last (trace ?w3) = Observed (lookup_job (db ?w3) jid)" by simp
    moreover have "filter is_call (trace ?w3) =
                 filter is_call (trace w) @ map EmailSend [1..<4]"
      by simp
    ultimately show "\<exists>w' j'. email_phase e cfg jid completed w = (False, w') \<and>
               lookup_job (db w') jid = Some j' \<and> status j' = ''failed'' \<and>
               error_message j' = Some ''Email failed after 3 retries'' \<and>
               completed_steps j' = completed_steps j \<and>
               last (trace w') = Observed (Some j') \<and>
               filter is_call (trace w') =
                 filter is_call (trace w) @ map EmailSend [1..<4]"
      using res by (intro exI [of _ ?w3] exI [of _ j3]) simp
  }
qed

text \<open>
  Two failures and then a success complete the job; three failures fail it, in the email
  phase alone and in a whole run of \<^verbatim>\<open>process_job\<close>.
\<close>

theorem email_phase_retries_witness:
  "lookup_job (db (start store_one_job)) ''job_1'' = Some (hd (jobs store_one_job)) \<and>
   email_max_retries default_config = 3 \<and>
   map (send_email env_email_flaky) [1, 2, 3] =
     [Some ''Email send failed'', Some ''Email send failed'', None] \<and>
   fst (email_phase env_email_flaky default_config ''job_1'' 3 (start store_one_job)) = True \<and>
   map status
     (jobs (db (snd (email_phase env_email_flaky default_config ''job_1'' 3
                       (start store_one_job))))) = [''completed''] \<and>
   fst (email_phase env_email_down default_config ''job_1'' 3 (start store_one_job)) = False \<and>
   map error_message
     (jobs (db (snd (email_phase env_email_down default_config ''job_1'' 3
                       (start store_one_job))))) = [Some ''Email failed after 3 retries''] \<and>
   fst (process_job env_email_flaky default_config ''job_3'' (start store_three)) = True \<and>
   map status
     (jobs (db (snd (process_job env_email_flaky default_config ''job_3''
                       (start store_three))))) = [''completed''] \<and>
   fst (process_job env_email_down default_config ''job_3'' (start store_three)) = False \<and>
   map status
     (jobs (db (snd (process_job env_email_down default_config ''job_3''
                       (start store_three))))) = [''failed'']"
proof -
  have 1: "lookup_job (db (start store_one_job)) ''job_1'' = Some (hd (jobs store_one_job))"
    by code_simp
  have 2: "email_max_retries default_config = 3" by code_simp
  have g: ?thesis by code_simp
  from email_phase_retries [OF 1 2, where e = env_email_flaky and k = 2 and completed = 3]
  show ?thesis using g by -
qed

subsection \<open>A job without competitors\<close>

lemma fail_job_row:
  assumes "lookup_job (db w) jid = Some j"
  shows "\<exists>w' j'. fail_job e jid msg w = (False, w') \<and> lookup_job (db w') jid = Some j' \<and>
           status j' = ''failed'' \<and> completed_steps j' = completed_steps j \<and>
           (msg \<noteq> [] \<longrightarrow> error_message j' = Some msg) \<and>
           filter is_call (trace w') = filter is_call (trace w)"
  using assms by (simp add: fail_job_def update_status_lookup update_status_row_def)

text \<open>
  Claim C10, as the code has it. A job that exists and has no competitor rows never ends
  completed: \<^verbatim>\<open>process_job\<close> returns \<^verbatim>\<open>False\<close>, the job is \<^verbatim>\<open>failed\<close>, and no
  collaborator (scraper, analysis, email) is called. When the client's data is saved
  (the folder, the inventory and the tools raise nothing), the message is
  \<^verbatim>\<open>No competitors scraped successfully\<close> and one step is recorded.
\<close>

theorem process_job_no_competitors:
  assumes "lookup_job (db w) jid = Some j" and "job_competitor_rows (db w) jid = []"
  shows "\<exists>w' j'. process_job e cfg jid w = (False, w') \<and>
           lookup_job (db w') jid = Some j' \<and> status j' = ''failed'' \<and>
           filter is_call (trace w') = filter is_call (trace w) \<and>
           (prepare_data_folder e jid (data_folder j) = None \<and>
            inventory_error e (convert_metadata (metadata j)) = None \<and>
            tools_error e (convert_metadata (metadata j)) = None \<longrightarrow>
              error_message j' = Some ''No competitors scraped successfully'' \<and>
              completed_steps j' = 1)"
proof -
  let ?w0 = "w\<lparr>tick := tick w + 1\<rparr>"
  let ?w1 = "job_update_status e jid ''processing'' (Some ''Starting'') None ?w0"
  let ?w2 = "job_update_status e jid ''processing'' (Some ''Saving client data'') None ?w1"
  let ?w3 = "job_update_progress e jid 1 ?w2"
  let ?meta = "convert_metadata (metadata j)"
  obtain j1 where j1: "lookup_job (db ?w1) jid = Some j1"
    using assms(1) by (simp add: update_status_lookup)
  then obtain j2 where j2: "lookup_job (db ?w2) jid = Some j2"
    by (simp add: update_status_lookup)
  then obtain j3 where j3: "lookup_job (db ?w3) jid = Some j3" and c3: "completed_steps j3 = 1"
    by (simp add: update_progress_lookup update_progress_row_def)
  have t1: "filter is_call (trace ?w1) = filter is_call (trace w)" by simp
  have t2: "filter is_call (trace ?w2) = filter is_call (trace w)" by simp
  have t3: "filter is_call (trace ?w3) = filter is_call (trace w)" by simp
  show ?thesis
  proof (cases "prepare_data_folder e jid (data_folder j)")
    case (Some x)
    with assms(1) have "process_job e cfg jid w = fail_job e jid (''Unexpected error: '' @ x) ?w1"
      by (simp add: process_job_def Let_def)
    with fail_job_row [OF j1, of e "''Unexpected error: '' @ x"] t1 Some show ?thesis by auto
  next
    case None
    note folder = None
    show ?thesis
    proof (cases "inventory_error e ?meta")
      case (Some x)
      with assms(1) folder
      have "process_job e cfg jid w = fail_job e jid (''Inventory data error: '' @ x) ?w2"
        by (simp add: process_job_def Let_def)
      with fail_job_row [OF j2, of e "''Inventory data error: '' @ x"] t2 Some show ?thesis by auto
    next
      case None
      note inventory = None
      show ?thesis
      proof (cases "tools_error e ?meta")
        case (Some x)
        with assms(1) folder inventory
        have "process_job e cfg jid w = fail_job e jid (''Tools data error: '' @ x) ?w2"
          by (simp add: process_job_def Let_def)
        with fail_job_row [OF j2, of e "''Tools data error: '' @ x"] t2 Some show ?thesis by auto
      next
        case None
        with assms folder inventory
        have "process_job e cfg jid w =
                fail_job e jid ''No competitors scraped successfully'' ?w3"
          by (simp add: process_job_def Let_def)
        with fail_job_row [OF j3, of e "''No competitors scraped successfully''"] t3 c3
        show ?thesis by auto
      qed
    qed
  qed
qed

theorem process_job_no_competitors_witness:
  "lookup_job (db (start store_no_competitors)) ''job_0'' =
     Some (hd (jobs store_no_competitors)) \<and>
   job_competitor_rows (db (start store_no_competitors)) ''job_0'' = [] \<and>
   fst (process_job env_ok default_config ''job_0'' (start store_no_competitors)) = False \<and>
   map observed_steps
     (trace (snd (process_job env_ok default_config ''job_0'' (start store_no_competitors)))) =
     [Some (''processing'', 0, 4), Some (''processing'', 0, 4), Some (''processing'', 1, 4),
      Some (''failed'', 1, 4)] \<and>
   map error_message
     (jobs (db (snd (process_job env_ok default_config ''job_0''
                       (start store_no_competitors))))) =
     [Some ''No competitors scraped successfully'']"
proof -
  have 1: "lookup_job (db (start store_no_competitors)) ''job_0'' =
     Some (hd (jobs store_no_competitors))" by code_simp
  have 2: "job_competitor_rows (db (start store_no_competitors)) ''job_0'' = []" by code_simp
  have g: ?thesis by code_simp
  from process_job_no_competitors [OF 1 2, where e = env_ok and cfg = default_config]
  show ?thesis using g by -
qed

text \<open>
  Claim C10 as stated fails when step 1 fails first: the job that \<^verbatim>\<open>create_job\<close> makes
  with no competitors and no metadata ends \<^verbatim>\<open>failed\<close> with the inventory error, not with
  \<^verbatim>\<open>No competitors scraped successfully\<close>.
\<close>

theorem process_job_no_competitors_bad_metadata:
  "job_competitor_rows (db (start store_no_metadata)) ''job_m'' = [] \<and>
   map total_steps (jobs store_no_metadata) = [4] \<and>
   fst (process_job env_ok default_config ''job_m'' (start store_no_metadata)) = False \<and>
   map error_message
     (jobs (db (snd (process_job env_ok default_config ''job_m'' (start store_no_metadata))))) =
     [Some (''Inventory data error: '' @ [CHR 0x22, CHR 0x27] @ ''inventory_json'' @
            [CHR 0x27] @ '' not found in metadata. Available keys: []'' @ [CHR 0x22])]"
  by code_simp

end
